theory Spec2Isabelle
  imports Complex_Main "HOL-Library.AList" "HOL-Library.Multiset"
begin

section \<open>Python and numpy values\<close>

text \<open>
  The program is \<^verbatim>\<open>document_summarization.py\<close>. Exceptions of the Python runtime
  and of numpy are values of \<open>error\<close>; a function that can raise returns \<open>error + 'a\<close>
  with \<open>Inl\<close> for the exception. Output written with \<^verbatim>\<open>print\<close> and the cache files
  of \<^verbatim>\<open>write_for_test\<close> do not influence any returned value and are left out.

  Floating point numbers are idealised: a finite float is a real number, and the three
  special values that numpy produces instead of raising (a division by zero gives
  \<^verbatim>\<open>nan\<close> or an infinity together with a warning) are kept as separate values, since
  the program's comparisons behave differently on them.
\<close>

datatype error = ZeroDivisionError | ValueError | IndexError | KeyError

datatype float64 = NaN | PInf | NInf | Fin real

text \<open>Python's \<^verbatim>\<open>a / b\<close> on two ints (true division) raises when the divisor is zero.\<close>

definition truediv :: "int \<Rightarrow> int \<Rightarrow> error + real" where
  "truediv a b = (if b = 0 then Inl ZeroDivisionError else Inr (real_of_int a / real_of_int b))"

text \<open>\<^verbatim>\<open>math.log(x)\<close> raises \<^verbatim>\<open>ValueError\<close> (math domain error) unless \<open>x\<close> is positive.\<close>

definition math_log :: "real \<Rightarrow> error + real" where
  "math_log x = (if x \<le> 0 then Inl ValueError else Inr (ln x))"

text \<open>\<^verbatim>\<open>xs[i]\<close> on a list or on the first axis of an array, for an index that is not negative.\<close>

definition getitem :: "'a list \<Rightarrow> nat \<Rightarrow> error + 'a" where
  "getitem xs i = (if i < length xs then Inr (xs ! i) else Inl IndexError)"

text \<open>\<^verbatim>\<open>xs.index(w)\<close>: the position of the first occurrence, \<^verbatim>\<open>ValueError\<close> when there is none.\<close>

primrec list_index :: "'a list \<Rightarrow> 'a \<Rightarrow> error + nat" where
  "list_index [] w = Inl ValueError"
| "list_index (x # xs) w =
     (if x = w then Inr 0
      else (case list_index xs w of Inl e \<Rightarrow> Inl e | Inr i \<Rightarrow> Inr (Suc i)))"

text \<open>
  A one-dimensional array is a list of reals, a two-dimensional one a list of rows.
  \<^verbatim>\<open>np.zeros((n, m))\<close> and the assignment \<^verbatim>\<open>a[i, j] = x\<close>:
\<close>

type_synonym ndarray = "real list"
type_synonym matrix = "real list list"

definition np_zeros :: "nat \<Rightarrow> nat \<Rightarrow> matrix" where
  "np_zeros n m = replicate n (replicate m 0)"

definition setitem2 :: "matrix \<Rightarrow> nat \<Rightarrow> nat \<Rightarrow> real \<Rightarrow> error + matrix" where
  "setitem2 a i j x =
     (if i < length a \<and> j < length (a ! i) then Inr (a[i := (a ! i)[j := x]])
      else Inl IndexError)"

text \<open>
  \<^verbatim>\<open>u.dot(v)\<close> raises \<^verbatim>\<open>ValueError\<close> when the shapes differ; \<^verbatim>\<open>np.linalg.norm\<close> is the
  Euclidean norm. Dividing two numpy floats never raises, and neither does \<^verbatim>\<open>np.cos\<close>.
\<close>

definition dot :: "ndarray \<Rightarrow> ndarray \<Rightarrow> error + real" where
  "dot u v =
     (if length u = length v then Inr (sum_list (map (\<lambda>(x, y). x * y) (zip u v)))
      else Inl ValueError)"

definition linalg_norm :: "ndarray \<Rightarrow> real" where
  "linalg_norm u = sqrt (sum_list (map (\<lambda>x. x * x) u))"

definition np_divide :: "real \<Rightarrow> real \<Rightarrow> float64" where
  "np_divide a b =
     (if b \<noteq> 0 then Fin (a / b)
      else if a = 0 then NaN
      else if 0 < a then PInf else NInf)"

fun np_cos :: "float64 \<Rightarrow> float64" where
  "np_cos (Fin x) = Fin (cos x)"
| "np_cos NaN = NaN"
| "np_cos PInf = NaN"
| "np_cos NInf = NaN"

text \<open>Comparisons of numpy floats: every comparison with \<^verbatim>\<open>nan\<close> is false.\<close>

fun float_lt :: "float64 \<Rightarrow> float64 \<Rightarrow> bool" where
  "float_lt NaN _ = False"
| "float_lt _ NaN = False"
| "float_lt (Fin a) (Fin b) = (a < b)"
| "float_lt NInf b = (b \<noteq> NInf)"
| "float_lt a PInf = (a \<noteq> PInf)"
| "float_lt _ _ = False"

fun float_eq :: "float64 \<Rightarrow> float64 \<Rightarrow> bool" where
  "float_eq NaN _ = False"
| "float_eq _ NaN = False"
| "float_eq a b = (a = b)"

section \<open>The function \<^verbatim>\<open>tf\<close>\<close>

text \<open>
  A dict is an association list in insertion order. \<^verbatim>\<open>d[k]\<close> raises \<^verbatim>\<open>KeyError\<close> for a
  missing key, \<^verbatim>\<open>d[k] = v\<close> overwrites or appends.
\<close>

type_synonym ('k, 'v) dict = "('k \<times> 'v) list"

definition dict_keys :: "('k, 'v) dict \<Rightarrow> 'k list" where
  "dict_keys d = map fst d"

definition dict_get :: "('k, 'v) dict \<Rightarrow> 'k \<Rightarrow> error + 'v" where
  "dict_get d k = (case map_of d k of None \<Rightarrow> Inl KeyError | Some v \<Rightarrow> Inr v)"

definition dict_set :: "('k, 'v) dict \<Rightarrow> 'k \<Rightarrow> 'v \<Rightarrow> ('k, 'v) dict" where
  "dict_set d k v = AList.update k v d"

text \<open>The first loop of \<^verbatim>\<open>tf\<close>: \<^verbatim>\<open>sum_count_words += count_word[count_w]\<close> for every key.\<close>

fun tf_sum_loop :: "(string, int) dict \<Rightarrow> string list \<Rightarrow> int \<Rightarrow> error + int" where
  "tf_sum_loop count_word [] sum_count_words = Inr sum_count_words"
| "tf_sum_loop count_word (count_w # ks) sum_count_words =
     (case dict_get count_word count_w of
        Inl e \<Rightarrow> Inl e
      | Inr c \<Rightarrow> tf_sum_loop count_word ks (sum_count_words + c))"

text \<open>The second loop: \<^verbatim>\<open>tf_word[w] = count_word[w] / sum_count_words\<close> for every key.\<close>

fun tf_word_loop ::
  "(string, int) dict \<Rightarrow> int \<Rightarrow> string list \<Rightarrow> (string, real) dict \<Rightarrow> error + (string, real) dict"
where
  "tf_word_loop count_word sum_count_words [] tf_word = Inr tf_word"
| "tf_word_loop count_word sum_count_words (w # ks) tf_word =
     (case dict_get count_word w of
        Inl e \<Rightarrow> Inl e
      | Inr c \<Rightarrow>
          (case truediv c sum_count_words of
             Inl e \<Rightarrow> Inl e
           | Inr q \<Rightarrow> tf_word_loop count_word sum_count_words ks (dict_set tf_word w q)))"

text \<open>
  \<^verbatim>\<open>tf(sentences)\<close>: both dicts start empty, nothing is counted from \<open>sentences\<close>, then the
  two loops run over the keys of \<open>count_word\<close>.
\<close>

definition tf :: "string list list \<Rightarrow> error + ((string, real) dict \<times> (string, int) dict)" where
  "tf sentences =
     (let count_word = ([] :: (string, int) dict);
          tf_word = ([] :: (string, real) dict)
      in case tf_sum_loop count_word (dict_keys count_word) 0 of
           Inl e \<Rightarrow> Inl e
         | Inr sum_count_words \<Rightarrow>
             (case tf_word_loop count_word sum_count_words (dict_keys count_word) tf_word of
                Inl e \<Rightarrow> Inl e
              | Inr tf_word' \<Rightarrow> Inr (tf_word', count_word)))"

section \<open>Cosine similarity\<close>

text \<open>
  \<^verbatim>\<open>cos_similarity\<close> computes the dot product, the two norms, divides, and returns
  \<^verbatim>\<open>np.cos\<close> of the quotient.
\<close>

definition cos_similarity :: "ndarray \<Rightarrow> ndarray \<Rightarrow> error + float64" where
  "cos_similarity sentence1 sentence2 =
     (case dot sentence1 sentence2 of
        Inl e \<Rightarrow> Inl e
      | Inr sen1_pro_sen2 \<Rightarrow>
          (let amp_sen1 = linalg_norm sentence1;
               amp_sen2 = linalg_norm sentence2
           in Inr (np_cos (np_divide sen1_pro_sen2 (amp_sen1 * amp_sen2)))))"

section \<open>The corpus interface\<close>

text \<open>
  \<^verbatim>\<open>DocProcess\<close> comes from the module \<^verbatim>\<open>document_process\<close>; the program only calls
  its methods and reads its field \<^verbatim>\<open>word_list\<close>. The object is therefore a parameter:
  a record with one field for each member the program uses. Sizes passed to \<^verbatim>\<open>range\<close>
  and to \<^verbatim>\<open>np.zeros\<close> are naturals; counts are ints, since the program itself tests
  a count against \<^verbatim>\<open>-1\<close>.
\<close>

record DocProcess =
  word_list :: "string list"
  doc_size :: nat
  sen_size :: "nat \<Rightarrow> nat"
  sen_size_total :: nat
  word_size :: "nat \<Rightarrow> int"
  word_size_total :: int
  count_in_doc :: "string \<Rightarrow> nat \<Rightarrow> int"
  count_doc_containing_word :: "string \<Rightarrow> int"
  count_total_in_doc :: "string \<Rightarrow> int"
  abstract :: "nat \<Rightarrow> string"

section \<open>The function \<^verbatim>\<open>tf_idf\<close>\<close>

text \<open>
  The innermost loop, \<^verbatim>\<open>for word in data.word_list\<close>, for one sentence: \<open>ws\<close> is the
  part of the word list still to visit, \<open>s_w_matrix\<close> the matrix so far. The two
  branches that only print leave the matrix as it is.
\<close>

fun word_loop ::
  "DocProcess \<Rightarrow> nat \<Rightarrow> int \<Rightarrow> nat \<Rightarrow> string list \<Rightarrow> matrix \<Rightarrow> error + matrix"
where
  "word_loop data doc_idx wrd_sz_doc general_sen_idx [] s_w_matrix = Inr s_w_matrix"
| "word_loop data doc_idx wrd_sz_doc general_sen_idx (word # ws) s_w_matrix =
     (let count = count_in_doc data word doc_idx in
      if count = 0 then word_loop data doc_idx wrd_sz_doc general_sen_idx ws s_w_matrix
      else if count > 0 then
        (case truediv count wrd_sz_doc of
           Inl e \<Rightarrow> Inl e
         | Inr tf_v \<Rightarrow>
        (case truediv (int (doc_size data)) (count_doc_containing_word data word + 1) of
           Inl e \<Rightarrow> Inl e
         | Inr q \<Rightarrow>
        (case math_log q of
           Inl e \<Rightarrow> Inl e
         | Inr idf \<Rightarrow>
        (case list_index (word_list data) word of
           Inl e \<Rightarrow> Inl e
         | Inr wrd_idx \<Rightarrow>
        (case setitem2 s_w_matrix general_sen_idx wrd_idx (tf_v * idf) of
           Inl e \<Rightarrow> Inl e
         | Inr m' \<Rightarrow> word_loop data doc_idx wrd_sz_doc general_sen_idx ws m')))))
      else word_loop data doc_idx wrd_sz_doc general_sen_idx ws s_w_matrix)"

text \<open>
  \<^verbatim>\<open>for sen_idx in range(data.sen_size(doc_idx))\<close>: the word loop, then
  \<^verbatim>\<open>general_sen_idx += 1\<close>. The result is the matrix and the sentence counter.
\<close>

fun sen_loop ::
  "DocProcess \<Rightarrow> nat \<Rightarrow> int \<Rightarrow> nat list \<Rightarrow> nat \<Rightarrow> matrix \<Rightarrow> error + (matrix \<times> nat)"
where
  "sen_loop data doc_idx wrd_sz_doc [] general_sen_idx s_w_matrix =
     Inr (s_w_matrix, general_sen_idx)"
| "sen_loop data doc_idx wrd_sz_doc (sen_idx # rest) general_sen_idx s_w_matrix =
     (case word_loop data doc_idx wrd_sz_doc general_sen_idx (word_list data) s_w_matrix of
        Inl e \<Rightarrow> Inl e
      | Inr m' \<Rightarrow> sen_loop data doc_idx wrd_sz_doc rest (general_sen_idx + 1) m')"

text \<open>\<^verbatim>\<open>for doc_idx in range(data.doc_size())\<close>.\<close>

fun doc_loop :: "DocProcess \<Rightarrow> nat list \<Rightarrow> nat \<Rightarrow> matrix \<Rightarrow> error + (matrix \<times> nat)" where
  "doc_loop data [] general_sen_idx s_w_matrix = Inr (s_w_matrix, general_sen_idx)"
| "doc_loop data (doc_idx # rest) general_sen_idx s_w_matrix =
     (let wrd_sz_doc = word_size data doc_idx in
      case sen_loop data doc_idx wrd_sz_doc [0..<sen_size data doc_idx]
             general_sen_idx s_w_matrix of
        Inl e \<Rightarrow> Inl e
      | Inr (m', g') \<Rightarrow> doc_loop data rest g' m')"

text \<open>
  The loop that builds \<^verbatim>\<open>long_sen_vector\<close>; \<^verbatim>\<open>math.log(1 / (1 + 1))\<close> is evaluated
  in every round.
\<close>

fun long_sen_loop :: "DocProcess \<Rightarrow> int \<Rightarrow> string list \<Rightarrow> real list \<Rightarrow> error + real list" where
  "long_sen_loop data word_size_total_v [] long_sen_vector = Inr long_sen_vector"
| "long_sen_loop data word_size_total_v (word # ws) long_sen_vector =
     (case truediv (count_total_in_doc data word) word_size_total_v of
        Inl e \<Rightarrow> Inl e
      | Inr tf_v \<Rightarrow>
     (case truediv 1 (1 + 1) of
        Inl e \<Rightarrow> Inl e
      | Inr q \<Rightarrow>
     (case math_log q of
        Inl e \<Rightarrow> Inl e
      | Inr idf \<Rightarrow>
          long_sen_loop data word_size_total_v ws (long_sen_vector @ [tf_v * idf]))))"

definition tf_idf :: "DocProcess \<Rightarrow> error + (matrix \<times> ndarray)" where
  "tf_idf data =
     (let s_w_matrix = np_zeros (sen_size_total data) (length (word_list data)) in
      case doc_loop data [0..<doc_size data] 0 s_w_matrix of
        Inl e \<Rightarrow> Inl e
      | Inr (m', g) \<Rightarrow>
          (case long_sen_loop data (word_size_total data) (word_list data) [] of
             Inl e \<Rightarrow> Inl e
           | Inr long_sen_vector \<Rightarrow> Inr (m', long_sen_vector)))"

section \<open>The function \<^verbatim>\<open>summarize\<close>\<close>

text \<open>
  Python compares the tuples \<^verbatim>\<open>(cosine, r)\<close> at the first position where they are
  not equal.
\<close>

definition tuple_lt :: "float64 \<times> nat \<Rightarrow> float64 \<times> nat \<Rightarrow> bool" where
  "tuple_lt x y =
     (if \<not> float_eq (fst x) (fst y) then float_lt (fst x) (fst y) else snd x < snd y)"

text \<open>
  \<^verbatim>\<open>sim_lst.sort(reverse=True)\<close> is a call into the Python library, so the sort is a
  parameter of the model. What is taken from the library is its contract: the result is
  a permutation of the list, and when every score is a number (then \<^verbatim>\<open><\<close> on the tuples
  is a total order) no element of the result is less than a later element. For such a
  list the contract fixes the result. With a \<^verbatim>\<open>nan\<close> among the scores the comparisons
  are not an order; the result then depends on the algorithm of the library, and only
  the permutation is taken as known.
\<close>

fun is_number :: "float64 \<Rightarrow> bool" where
  "is_number (Fin x) = True"
| "is_number _ = False"

definition sort_contract :: "((float64 \<times> nat) list \<Rightarrow> (float64 \<times> nat) list) \<Rightarrow> bool" where
  "sort_contract f \<longleftrightarrow>
     (\<forall>xs. mset (f xs) = mset xs \<and>
           ((\<forall>x\<in>set xs. is_number (fst x)) \<longrightarrow> sorted_wrt (\<lambda>a b. \<not> tuple_lt a b) (f xs)))"

text \<open>
  One function that meets the contract, used to evaluate examples: the list is reversed,
  sorted in ascending order by insertion, keeping equal elements in their order, and
  reversed again.
\<close>

fun insort_lt :: "float64 \<times> nat \<Rightarrow> (float64 \<times> nat) list \<Rightarrow> (float64 \<times> nat) list" where
  "insort_lt x [] = [x]"
| "insort_lt x (y # ys) = (if tuple_lt y x then y # insort_lt x ys else x # y # ys)"

definition isort_reverse :: "(float64 \<times> nat) list \<Rightarrow> (float64 \<times> nat) list" where
  "isort_reverse xs = rev (foldr insort_lt (rev xs) [])"

text \<open>
  The insertion sort meets the contract; this is what makes the type of sorts below
  nonempty.
\<close>

lemma tuple_lt_Fin:
  "tuple_lt (Fin a, i) (Fin b, j) \<longleftrightarrow> a < b \<or> (a = b \<and> i < j)"
  by (auto simp: tuple_lt_def)

lemma insort_lt_set: "set (insort_lt x ys) = insert x (set ys)"
  by (induction ys) auto

lemma insort_lt_length: "length (insort_lt x ys) = Suc (length ys)"
  by (induction ys) auto

lemma insort_lt_sorted:
  assumes "\<exists>r. fst x = Fin r" "\<forall>y\<in>set ys. \<exists>r. fst y = Fin r"
    "sorted_wrt (\<lambda>a b. \<not> tuple_lt b a) ys"
  shows "sorted_wrt (\<lambda>a b. \<not> tuple_lt b a) (insort_lt x ys)"
  using assms(2,3)
proof (induction ys)
  case Nil then show ?case by simp
next
  case (Cons y ys)
  obtain a i where x: "x = (Fin a, i)" using assms(1) by (cases x) auto
  from Cons.prems(1) have "\<exists>r. fst y = Fin r" by simp
  then obtain b j where y: "y = (Fin b, j)" by (cases y) auto
  show ?case
  proof (cases "tuple_lt y x")
    case True
    have "sorted_wrt (\<lambda>a b. \<not> tuple_lt b a) (insort_lt x ys)"
      using Cons by simp
    moreover have "\<not> tuple_lt x y" using True by (auto simp: x y tuple_lt_Fin)
    ultimately show ?thesis using True Cons.prems(2) by (auto simp: insort_lt_set)
  next
    case False
    have "\<not> tuple_lt z x" if "z \<in> set ys" for z
    proof -
      from Cons.prems(1) that have "\<exists>r. fst z = Fin r" by simp
      then obtain c k where z: "z = (Fin c, k)" by (cases z) auto
      from Cons.prems(2) that have "\<not> tuple_lt z y" by simp
      with False show ?thesis by (auto simp: x y z tuple_lt_Fin)
    qed
    with False Cons.prems(2) show ?thesis by auto
  qed
qed

lemma foldr_insort_lt:
  assumes "\<forall>y\<in>set ys. \<exists>r. fst y = Fin r"
  shows "sorted_wrt (\<lambda>a b. \<not> tuple_lt b a) (foldr insort_lt ys []) \<and>
         set (foldr insort_lt ys []) = set ys \<and> length (foldr insort_lt ys []) = length ys"
  using assms
proof (induction ys)
  case Nil then show ?case by simp
next
  case (Cons y ys)
  then have ih: "sorted_wrt (\<lambda>a b. \<not> tuple_lt b a) (foldr insort_lt ys [])"
    "set (foldr insort_lt ys []) = set ys" "length (foldr insort_lt ys []) = length ys"
    by simp_all
  have "sorted_wrt (\<lambda>a b. \<not> tuple_lt b a) (insort_lt y (foldr insort_lt ys []))"
    using Cons.prems ih by (intro insort_lt_sorted) simp_all
  with ih show ?case by (simp add: insort_lt_set insort_lt_length)
qed

lemma is_number_iff: "is_number a \<longleftrightarrow> (\<exists>r. a = Fin r)"
  by (cases a) simp_all

lemma insort_lt_mset: "mset (insort_lt x ys) = add_mset x (mset ys)"
  by (induction ys) auto

lemma foldr_insort_lt_mset: "mset (foldr insort_lt ys []) = mset ys"
  by (induction ys) (simp_all add: insort_lt_mset)

lemma isort_reverse_contract: "sort_contract isort_reverse"
  unfolding sort_contract_def
proof (intro allI conjI impI)
  fix xs
  show "mset (isort_reverse xs) = mset xs"
    by (simp add: isort_reverse_def foldr_insort_lt_mset)
  assume "\<forall>x\<in>set xs. is_number (fst x)"
  then have "\<forall>y\<in>set (rev xs). \<exists>r. fst y = Fin r" by (simp add: is_number_iff)
  from foldr_insort_lt[OF this]
  show "sorted_wrt (\<lambda>a b. \<not> tuple_lt a b) (isort_reverse xs)"
    by (simp add: isort_reverse_def sorted_wrt_rev)
qed

text \<open>
  The type of the functions that meet the contract. The sort of the library is some
  element \<open>py\<close> of it; \<open>sort_reverse py\<close> applies it.
\<close>

typedef list_sort = "{f. sort_contract f}"
  using isort_reverse_contract by blast

definition sort_reverse :: "list_sort \<Rightarrow> (float64 \<times> nat) list \<Rightarrow> (float64 \<times> nat) list" where
  "sort_reverse py = Rep_list_sort py"

definition insertion_sort :: list_sort where
  "insertion_sort = Abs_list_sort isort_reverse"

text \<open>
  \<^verbatim>\<open>for r in range(s_w_matrix.shape[0])\<close>: the cosine of row \<open>r\<close> and the long
  sentence vector is appended together with \<open>r\<close>.
\<close>

fun sim_loop :: "matrix \<Rightarrow> ndarray \<Rightarrow> nat list \<Rightarrow> (float64 \<times> nat) list \<Rightarrow> error + (float64 \<times> nat) list" where
  "sim_loop s_w_matrix long_sen_vector [] sim_lst = Inr sim_lst"
| "sim_loop s_w_matrix long_sen_vector (r # rest) sim_lst =
     (case getitem s_w_matrix r of
        Inl e \<Rightarrow> Inl e
      | Inr row \<Rightarrow>
     (case cos_similarity row long_sen_vector of
        Inl e \<Rightarrow> Inl e
      | Inr cosine \<Rightarrow> sim_loop s_w_matrix long_sen_vector rest (sim_lst @ [(cosine, r)])))"

text \<open>
  The ranking: the loop above, then \<^verbatim>\<open>sim_lst.sort(reverse=True)\<close>, with \<open>py\<close> for the
  sort of the library.
\<close>

definition ranking :: "list_sort \<Rightarrow> matrix \<Rightarrow> ndarray \<Rightarrow> error + (float64 \<times> nat) list" where
  "ranking py s_w_matrix long_sen_vector =
     (case sim_loop s_w_matrix long_sen_vector [0..<length s_w_matrix] [] of
        Inl e \<Rightarrow> Inl e
      | Inr sim_lst \<Rightarrow> Inr (sort_reverse py sim_lst))"

text \<open>The variables of the selection loop.\<close>

record sel_state =
  base_rank :: nat
  current_rank :: nat
  summary :: "string list"
  sum_size :: nat

text \<open>
  One round of \<^verbatim>\<open>while current_rank != sim_lst.__len__()\<close>. The result \<open>None\<close> says that
  the loop is left (the condition is false, or the \<^verbatim>\<open>break\<close> is taken); otherwise it
  is the state at the next test of the condition.
\<close>

definition select_step ::
  "DocProcess \<Rightarrow> matrix \<Rightarrow> (float64 \<times> nat) list \<Rightarrow> sel_state \<Rightarrow> error + sel_state option"
where
  "select_step data s_w_matrix sim_lst st =
     (if current_rank st = length sim_lst then Inr None
      else if sum_size st \<ge> 665 then Inr None
      else
        (case getitem sim_lst (current_rank st) of
           Inl e \<Rightarrow> Inl e
         | Inr cur \<Rightarrow>
        (case getitem s_w_matrix (snd cur) of
           Inl e \<Rightarrow> Inl e
         | Inr row_cur \<Rightarrow>
        (case getitem sim_lst (base_rank st) of
           Inl e \<Rightarrow> Inl e
         | Inr bas \<Rightarrow>
        (case getitem s_w_matrix (snd bas) of
           Inl e \<Rightarrow> Inl e
         | Inr row_bas \<Rightarrow>
        (case cos_similarity row_cur row_bas of
           Inl e \<Rightarrow> Inl e
         | Inr sim \<Rightarrow>
             if float_lt sim (Fin (539 / 1000)) then
               (let sentence = abstract data (snd cur) in
                Inr (Some \<lparr>base_rank = current_rank st,
                           current_rank = current_rank st + 1,
                           summary = summary st @ [sentence],
                           sum_size = sum_size st + length sentence\<rparr>))
             else Inr (Some (st\<lparr>current_rank := current_rank st + 1\<rparr>))))))))"

function select_loop ::
  "DocProcess \<Rightarrow> matrix \<Rightarrow> (float64 \<times> nat) list \<Rightarrow> sel_state \<Rightarrow> error + sel_state"
where
  "select_loop data s_w_matrix sim_lst st =
     (case select_step data s_w_matrix sim_lst st of
        Inl e \<Rightarrow> Inl e
      | Inr None \<Rightarrow> Inr st
      | Inr (Some st') \<Rightarrow> select_loop data s_w_matrix sim_lst st')"
  by pat_completeness auto
termination
proof (relation "measure (\<lambda>(data, m, sl, st). length sl - current_rank st)")
  show "wf (measure (\<lambda>(data, m, sl, st). length sl - current_rank st))"
    by simp
next
  fix data :: DocProcess and s_w_matrix sim_lst st x2 x2a
  assume "select_step data s_w_matrix sim_lst st = Inr x2" and "x2 = Some x2a"
  then have "select_step data s_w_matrix sim_lst st = Inr (Some x2a)"
    by simp
  then have "current_rank st < length sim_lst \<and> current_rank x2a = current_rank st + 1"
    by (auto simp: select_step_def getitem_def Let_def split: if_splits sum.splits)
  then show "((data, s_w_matrix, sim_lst, x2a), (data, s_w_matrix, sim_lst, st))
          \<in> measure (\<lambda>(data, m, sl, st). length sl - current_rank st)"
    by auto
qed

text \<open>
  \<^verbatim>\<open>summarize\<close>, with \<open>py\<close> for the sort of the library, from the corpus object on (building it from the paths belongs to
  \<^verbatim>\<open>DocProcess\<close>). \<^verbatim>\<open>sim_lst[base_rank]\<close> with \<open>base_rank = 0\<close> is read before the loop.
\<close>

definition summarize :: "list_sort \<Rightarrow> DocProcess \<Rightarrow> error + string list" where
  "summarize py data =
     (case tf_idf data of
        Inl e \<Rightarrow> Inl e
      | Inr (s_w_matrix, long_sen_vector) \<Rightarrow>
     (case ranking py s_w_matrix long_sen_vector of
        Inl e \<Rightarrow> Inl e
      | Inr sim_lst \<Rightarrow>
     (case getitem sim_lst 0 of
        Inl e \<Rightarrow> Inl e
      | Inr top_pair \<Rightarrow>
          (let first_sentence = abstract data (snd top_pair);
               st0 = \<lparr>base_rank = 0, current_rank = 1,
                      summary = [first_sentence], sum_size = length first_sentence\<rparr>
           in case select_loop data s_w_matrix sim_lst st0 of
                Inl e \<Rightarrow> Inl e
              | Inr st \<Rightarrow> Inr (summary st)))))"

section \<open>Notions used in the statements\<close>

text \<open>
  The sentences of all documents are numbered in one sequence, document after document;
  \<open>doc_of data ds s\<close> is the document, among the documents \<open>ds\<close>, that holds sentence
  number \<open>s\<close> counted from the first sentence of \<open>ds\<close>. This is how \<^verbatim>\<open>general_sen_idx\<close>
  runs in \<^verbatim>\<open>tf_idf\<close>.
\<close>

fun doc_of :: "DocProcess \<Rightarrow> nat list \<Rightarrow> nat \<Rightarrow> nat option" where
  "doc_of data [] s = None"
| "doc_of data (d # ds) s =
     (if s < sen_size data d then Some d else doc_of data ds (s - sen_size data d))"

text \<open>
  The product \<^verbatim>\<open>tf * idf\<close> that \<^verbatim>\<open>tf_idf\<close> stores for a word with a positive count, and
  the condition under which neither division nor the logarithm raises.
\<close>

definition tfidf_value :: "DocProcess \<Rightarrow> nat \<Rightarrow> string \<Rightarrow> real" where
  "tfidf_value data d w =
     (real_of_int (count_in_doc data w d) / real_of_int (word_size data d)) *
     ln (real (doc_size data) / real_of_int (count_doc_containing_word data w + 1))"

definition tfidf_defined :: "DocProcess \<Rightarrow> nat \<Rightarrow> string \<Rightarrow> bool" where
  "tfidf_defined data d w \<longleftrightarrow>
     word_size data d \<noteq> 0 \<and> count_doc_containing_word data w + 1 \<noteq> 0 \<and>
     0 < real (doc_size data) / real_of_int (count_doc_containing_word data w + 1)"

section \<open>Example corpora\<close>

text \<open>
  Three documents of one sentence each over the vocabulary cat, dog, mat; every word
  occurs in two of the documents.
\<close>

definition pets :: DocProcess where
  "pets = \<lparr>
     word_list = [''cat'', ''dog'', ''mat''],
     doc_size = 3,
     sen_size = (\<lambda>d. 1),
     sen_size_total = 3,
     word_size = (\<lambda>d. 2),
     word_size_total = 6,
     count_in_doc = (\<lambda>w d.
        if (w, d) \<in> {(''cat'', 0), (''mat'', 0), (''dog'', 1), (''mat'', 1), (''cat'', 2), (''dog'', 2)}
        then 1 else 0),
     count_doc_containing_word = (\<lambda>w. 2),
     count_total_in_doc = (\<lambda>w. 2),
     abstract = (\<lambda>s. [''cat sat mat'', ''dog sat mat'', ''cat dog''] ! s)\<rparr>"

text \<open>Two documents; cat occurs in the first only, dog in both.\<close>

definition news :: DocProcess where
  "news = \<lparr>
     word_list = [''cat'', ''dog''],
     doc_size = 2,
     sen_size = (\<lambda>d. 1),
     sen_size_total = 2,
     word_size = (\<lambda>d. 2),
     word_size_total = 4,
     count_in_doc = (\<lambda>w d.
        if (w, d) \<in> {(''cat'', 0), (''dog'', 0)} then 1
        else if (w, d) = (''dog'', 1) then 2 else 0),
     count_doc_containing_word = (\<lambda>w. if w = ''cat'' then 1 else 2),
     count_total_in_doc = (\<lambda>w. if w = ''cat'' then 1 else 3),
     abstract = (\<lambda>s. [''cat dog'', ''dog dog''] ! s)\<rparr>"

text \<open>No document and no word.\<close>

definition empty_corpus :: DocProcess where
  "empty_corpus = \<lparr>
     word_list = [],
     doc_size = 0,
     sen_size = (\<lambda>d. 0),
     sen_size_total = 0,
     word_size = (\<lambda>d. 0),
     word_size_total = 0,
     count_in_doc = (\<lambda>w d. 0),
     count_doc_containing_word = (\<lambda>w. 0),
     count_total_in_doc = (\<lambda>w. 0),
     abstract = (\<lambda>s. [])\<rparr>"

text \<open>One document whose word count is reported as zero although a word is counted in it.\<close>

definition blank_doc :: DocProcess where
  "blank_doc = \<lparr>
     word_list = [''cat''],
     doc_size = 1,
     sen_size = (\<lambda>d. 1),
     sen_size_total = 1,
     word_size = (\<lambda>d. 0),
     word_size_total = 1,
     count_in_doc = (\<lambda>w d. 1),
     count_doc_containing_word = (\<lambda>w. 1),
     count_total_in_doc = (\<lambda>w. 1),
     abstract = (\<lambda>s. ''cat'')\<rparr>"

text \<open>
  The matrix that \<^verbatim>\<open>tf_idf\<close> computes for the first corpus, a ranking of its three
  sentences (every score is \<^verbatim>\<open>nan\<close>, since every row is zero), the state in which the
  selection loop starts on it, and a state whose summary already has 700 characters.
\<close>

definition pets_matrix :: matrix where
  "pets_matrix = [[0, 0, 0], [0, 0, 0], [0, 0, 0]]"

definition pets_sim_lst :: "(float64 \<times> nat) list" where
  "pets_sim_lst = [(NaN, 0), (NaN, 1), (NaN, 2)]"

definition pets_st0 :: sel_state where
  "pets_st0 = \<lparr>base_rank = 0, current_rank = 1, summary = [''cat sat mat''], sum_size = 11\<rparr>"

definition full_st :: sel_state where
  "full_st = \<lparr>base_rank = 0, current_rank = 1, summary = [replicate 700 CHR ''a''], sum_size = 700\<rparr>"

section \<open>Auxiliary facts\<close>

subsection \<open>Arithmetic and the loops of \<^verbatim>\<open>tf_idf\<close>\<close>

lemma cos_one_bound: "cos (1::real) \<le> 13 / 24"
proof -
  obtain t :: real where t: "cos (1::real) = (\<Sum>m<4. cos_coeff m * 1 ^ m) + cos (t + 1/2 * real 4 * pi) / fact 4 * 1 ^ 4"
    using Maclaurin_cos_expansion2[of 1 4] by auto
  have s: "(\<Sum>m<4. f m) = f 0 + f 1 + f 2 + f (3::nat)" for f :: "nat \<Rightarrow> real"
    by (simp add: numeral_eq_Suc)
  have a: "(\<Sum>m<4. cos_coeff m * (1::real) ^ m) = 1/2"
    unfolding s by (simp add: cos_coeff_def fact_numeral)
  have b: "cos (t + 1/2 * real 4 * pi) \<le> 1" by (rule cos_le_one)
  have c: "fact 4 = (24::real)" by (simp add: fact_numeral)
  have "cos (1::real) = 1/2 + cos (t + 1/2 * real 4 * pi) / 24"
    using t unfolding a c by simp
  with b show ?thesis by linarith
qed

lemma long_sen_loop_spec:
  "long_sen_loop data T ws acc = Inr v \<Longrightarrow>
     v = acc @ map (\<lambda>w. (real_of_int (count_total_in_doc data w) / real_of_int T) * ln (1 / 2)) ws"
proof (induction ws arbitrary: acc)
  case Nil then show ?case by simp
next
  case (Cons w ws)
  from Cons.prems obtain x where
    "long_sen_loop data T ws (acc @ [x]) = Inr v"
    "x = (real_of_int (count_total_in_doc data w) / real_of_int T) * ln (1 / 2)"
    by (auto simp: truediv_def math_log_def split: sum.splits if_splits)
  with Cons.IH[of "acc @ [x]"] show ?case by simp
qed

lemma setitem2_Inr:
  "setitem2 a i j x = Inr a' \<longleftrightarrow> i < length a \<and> j < length (a ! i) \<and> a' = a[i := (a ! i)[j := x]]"
  by (auto simp: setitem2_def)

lemma list_index_Inr:
  "list_index xs w = Inr i \<Longrightarrow> i < length xs \<and> xs ! i = w"
  by (induction xs arbitrary: i) (auto split: if_splits sum.splits)

lemma word_loop_step:
  assumes "word_loop data d wsz g (w # ws) M = Inr M'" "0 < count_in_doc data w d"
  obtains idx where "wsz \<noteq> 0" "count_doc_containing_word data w + 1 \<noteq> 0"
    "0 < real (doc_size data) / real_of_int (count_doc_containing_word data w + 1)"
    "idx < length (word_list data)" "word_list data ! idx = w"
    "g < length M" "idx < length (M ! g)"
    "word_loop data d wsz g ws
       (M[g := (M ! g)[idx := (real_of_int (count_in_doc data w d) / real_of_int wsz) *
     ln (real (doc_size data) / real_of_int (count_doc_containing_word data w + 1))]]) = Inr M'"
  using assms
  by (auto simp: Let_def truediv_def math_log_def setitem2_Inr split: sum.splits if_splits
      dest!: list_index_Inr)

lemma word_loop_skip:
  assumes "word_loop data d wsz g (w # ws) M = Inr M'" "\<not> 0 < count_in_doc data w d"
  shows "word_loop data d wsz g ws M = Inr M'"
  using assms by (auto simp: Let_def split: if_splits)

lemma word_loop_shape:
  "word_loop data d wsz g ws M = Inr M' \<Longrightarrow> map length M' = map length M"
proof (induction ws arbitrary: M)
  case Nil then show ?case by simp
next
  case (Cons w ws)
  show ?case
  proof (cases "0 < count_in_doc data w d")
    case True
    from word_loop_step[OF Cons.prems True] obtain idx x where
      "g < length M" "word_loop data d wsz g ws (M[g := (M ! g)[idx := x]]) = Inr M'"
      by metis
    from Cons.IH[OF this(2)] this(1) show ?thesis
      by (simp add: map_update) (metis length_list_update list_update_id map_update nth_map)
  next
    case False
    from Cons.IH[OF word_loop_skip[OF Cons.prems False]] show ?thesis .
  qed
qed

lemma word_loop_other:
  "word_loop data d wsz g ws M = Inr M' \<Longrightarrow> i \<noteq> g \<Longrightarrow> M' ! i = M ! i"
proof (induction ws arbitrary: M)
  case Nil then show ?case by simp
next
  case (Cons w ws)
  show ?case
  proof (cases "0 < count_in_doc data w d")
    case True
    from word_loop_step[OF Cons.prems(1) True] obtain idx x where
      "word_loop data d wsz g ws (M[g := (M ! g)[idx := x]]) = Inr M'"
      by metis
    from Cons.IH[OF this Cons.prems(2)] Cons.prems(2) show ?thesis by simp
  next
    case False
    from Cons.IH[OF word_loop_skip[OF Cons.prems(1) False] Cons.prems(2)] show ?thesis .
  qed
qed

lemma word_loop_defined:
  "word_loop data d wsz g ws M = Inr M' \<Longrightarrow> w \<in> set ws \<Longrightarrow> 0 < count_in_doc data w d \<Longrightarrow>
     wsz \<noteq> 0 \<and> count_doc_containing_word data w + 1 \<noteq> 0 \<and>
     0 < real (doc_size data) / real_of_int (count_doc_containing_word data w + 1) \<and>
     g < length M"
proof (induction ws arbitrary: M)
  case Nil then show ?case by simp
next
  case (Cons v ws)
  show ?case
  proof (cases "0 < count_in_doc data v d")
    case True
    from word_loop_step[OF Cons.prems(1) True] obtain idx x where st:
      "wsz \<noteq> 0" "count_doc_containing_word data v + 1 \<noteq> 0"
      "0 < real (doc_size data) / real_of_int (count_doc_containing_word data v + 1)"
      "g < length M"
      "word_loop data d wsz g ws (M[g := (M ! g)[idx := x]]) = Inr M'"
      by metis
    show ?thesis
    proof (cases "w = v")
      case True with st show ?thesis by simp
    next
      case False
      with Cons.prems(2) have "w \<in> set ws" by simp
      from Cons.IH[OF st(5) this Cons.prems(3)] show ?thesis by simp
    qed
  next
    case False
    with Cons.prems have "w \<in> set ws" by auto
    from Cons.IH[OF word_loop_skip[OF Cons.prems(1) False] this Cons.prems(3)] show ?thesis .
  qed
qed

lemma word_loop_row:
  assumes "distinct (word_list data)" "j < length (word_list data)"
  shows "word_loop data d wsz g ws M = Inr M' \<Longrightarrow>
     M' ! g ! j =
       (if word_list data ! j \<in> set ws \<and> 0 < count_in_doc data (word_list data ! j) d
        then (real_of_int (count_in_doc data (word_list data ! j) d) / real_of_int wsz) *
     ln (real (doc_size data) / real_of_int (count_doc_containing_word data (word_list data ! j) + 1))
        else M ! g ! j)"
proof (induction ws arbitrary: M)
  case Nil then show ?case by simp
next
  case (Cons w ws)
  let ?wl = "word_list data"
  let ?val = "\<lambda>w. (real_of_int (count_in_doc data w d) / real_of_int wsz) *
     ln (real (doc_size data) / real_of_int (count_doc_containing_word data w + 1))"
  show ?case
  proof (cases "0 < count_in_doc data w d")
    case True
    from word_loop_step[OF Cons.prems(1) True] obtain idx where st:
      "idx < length ?wl" "?wl ! idx = w" "g < length M" "idx < length (M ! g)"
      "word_loop data d wsz g ws (M[g := (M ! g)[idx := ?val w]]) = Inr M'"
      by metis
    have eq: "?wl ! j = w \<longleftrightarrow> j = idx"
      using assms st(1,2) by (auto simp: nth_eq_iff_index_eq)
    from Cons.IH[OF st(5)] st(3,4) eq True show ?thesis
      by (auto simp: nth_list_update)
  next
    case False
    from Cons.IH[OF word_loop_skip[OF Cons.prems(1) False]] False show ?thesis
      by auto
  qed
qed


lemma sen_loop_Cons:
  assumes "sen_loop data d wsz (i # rest) g M = Inr (M', g')"
  obtains M1 where "word_loop data d wsz g (word_list data) M = Inr M1"
    "sen_loop data d wsz rest (g + 1) M1 = Inr (M', g')"
  using assms by (auto split: sum.splits)

lemma sen_loop_shape:
  "sen_loop data d wsz sens g M = Inr (M', g') \<Longrightarrow>
     map length M' = map length M \<and> g' = g + length sens"
proof (induction sens arbitrary: g M)
  case Nil then show ?case by simp
next
  case (Cons i rest)
  from sen_loop_Cons[OF Cons.prems] obtain M1 where
    a: "word_loop data d wsz g (word_list data) M = Inr M1"
    and b: "sen_loop data d wsz rest (g + 1) M1 = Inr (M', g')"
    by metis
  from Cons.IH[OF b] word_loop_shape[OF a] show ?case by simp
qed

lemma sen_loop_other:
  "sen_loop data d wsz sens g M = Inr (M', g') \<Longrightarrow> i < g \<or> g + length sens \<le> i \<Longrightarrow>
     M' ! i = M ! i"
proof (induction sens arbitrary: g M)
  case Nil then show ?case by simp
next
  case (Cons x rest)
  from sen_loop_Cons[OF Cons.prems(1)] obtain M1 where
    a: "word_loop data d wsz g (word_list data) M = Inr M1"
    and b: "sen_loop data d wsz rest (g + 1) M1 = Inr (M', g')"
    by metis
  from Cons.prems(2) have "i < g + 1 \<or> g + 1 + length rest \<le> i" and "i \<noteq> g" by auto
  from Cons.IH[OF b this(1)] word_loop_other[OF a this(2)] show ?case by simp
qed

lemma sen_loop_row:
  assumes "distinct (word_list data)" "j < length (word_list data)"
  shows "sen_loop data d wsz sens g M = Inr (M', g') \<Longrightarrow> g \<le> i \<Longrightarrow> i < g + length sens \<Longrightarrow>
     M' ! i ! j =
       (if 0 < count_in_doc data (word_list data ! j) d
        then (real_of_int (count_in_doc data (word_list data ! j) d) / real_of_int wsz) *
     ln (real (doc_size data) / real_of_int (count_doc_containing_word data (word_list data ! j) + 1))
        else M ! i ! j)"
proof (induction sens arbitrary: g M)
  case Nil then show ?case by simp
next
  case (Cons x rest)
  from sen_loop_Cons[OF Cons.prems(1)] obtain M1 where
    a: "word_loop data d wsz g (word_list data) M = Inr M1"
    and b: "sen_loop data d wsz rest (g + 1) M1 = Inr (M', g')"
    by metis
  show ?case
  proof (cases "i = g")
    case True
    then have "M' ! i = M1 ! i"
      using sen_loop_other[OF b, of i] by simp
    with word_loop_row[OF assms a] True assms(2) show ?thesis by simp
  next
    case False
    with Cons.prems have "g + 1 \<le> i" "i < g + 1 + length rest" by auto
    from Cons.IH[OF b this] word_loop_other[OF a False] show ?thesis by simp
  qed
qed

lemma sen_loop_defined:
  "sen_loop data d wsz sens g M = Inr (M', g') \<Longrightarrow> sens \<noteq> [] \<Longrightarrow>
   w \<in> set (word_list data) \<Longrightarrow> 0 < count_in_doc data w d \<Longrightarrow>
     wsz \<noteq> 0 \<and> count_doc_containing_word data w + 1 \<noteq> 0 \<and>
     0 < real (doc_size data) / real_of_int (count_doc_containing_word data w + 1)"
proof (cases sens)
  case Nil
  assume "sens \<noteq> []" with Nil show ?thesis by simp
next
  case (Cons x rest)
  assume p: "sen_loop data d wsz sens g M = Inr (M', g')"
    "w \<in> set (word_list data)" "0 < count_in_doc data w d"
  from sen_loop_Cons[OF p(1)[unfolded Cons]] obtain M1 where
    a: "word_loop data d wsz g (word_list data) M = Inr M1"
    by metis
  from word_loop_defined[OF a p(2,3)] show ?thesis by simp
qed

lemma doc_loop_Cons:
  assumes "doc_loop data (d # rest) g M = Inr (M', g')"
  obtains M1 g1 where
    "sen_loop data d (word_size data d) [0..<sen_size data d] g M = Inr (M1, g1)"
    "doc_loop data rest g1 M1 = Inr (M', g')"
  using assms by (auto simp: Let_def split: sum.splits prod.splits)

lemma doc_loop_shape:
  "doc_loop data ds g M = Inr (M', g') \<Longrightarrow> map length M' = map length M"
proof (induction ds arbitrary: g M)
  case Nil then show ?case by simp
next
  case (Cons d rest)
  from doc_loop_Cons[OF Cons.prems] obtain M1 g1 where
    a: "sen_loop data d (word_size data d) [0..<sen_size data d] g M = Inr (M1, g1)"
    and b: "doc_loop data rest g1 M1 = Inr (M', g')"
    by metis
  from Cons.IH[OF b] sen_loop_shape[OF a] show ?case by simp
qed

lemma doc_loop_before:
  "doc_loop data ds g M = Inr (M', g') \<Longrightarrow> i < g \<Longrightarrow> M' ! i = M ! i"
proof (induction ds arbitrary: g M)
  case Nil then show ?case by simp
next
  case (Cons d rest)
  from doc_loop_Cons[OF Cons.prems(1)] obtain M1 g1 where
    a: "sen_loop data d (word_size data d) [0..<sen_size data d] g M = Inr (M1, g1)"
    and b: "doc_loop data rest g1 M1 = Inr (M', g')"
    by metis
  from sen_loop_shape[OF a] have g1: "g1 = g + sen_size data d" by simp
  with Cons.prems(2) have "i < g1" by simp
  from Cons.IH[OF b this] sen_loop_other[OF a, of i] Cons.prems(2) show ?case by simp
qed

lemma doc_loop_row:
  assumes "distinct (word_list data)" "j < length (word_list data)"
  shows "doc_loop data ds g M = Inr (M', g') \<Longrightarrow> doc_of data ds s = Some d \<Longrightarrow>
     M' ! (g + s) ! j =
       (if 0 < count_in_doc data (word_list data ! j) d
        then tfidf_value data d (word_list data ! j)
        else M ! (g + s) ! j)"
proof (induction ds arbitrary: g M s)
  case Nil then show ?case by simp
next
  case (Cons x rest)
  from doc_loop_Cons[OF Cons.prems(1)] obtain M1 g1 where
    a: "sen_loop data x (word_size data x) [0..<sen_size data x] g M = Inr (M1, g1)"
    and b: "doc_loop data rest g1 M1 = Inr (M', g')"
    by metis
  from sen_loop_shape[OF a] have g1: "g1 = g + sen_size data x" by simp
  show ?case
  proof (cases "s < sen_size data x")
    case True
    with Cons.prems(2) have dx: "d = x" by simp
    from True g1 have "g + s < g1" by simp
    from doc_loop_before[OF b this] have "M' ! (g + s) = M1 ! (g + s)" .
    moreover from sen_loop_row[OF assms a, of "g + s"] True
    have "M1 ! (g + s) ! j =
       (if 0 < count_in_doc data (word_list data ! j) x
        then tfidf_value data x (word_list data ! j)
        else M ! (g + s) ! j)"
      by (simp add: tfidf_value_def)
    ultimately show ?thesis using dx by simp
  next
    case False
    with Cons.prems(2) have "doc_of data rest (s - sen_size data x) = Some d" by simp
    from Cons.IH[OF b this] False g1
    have "M' ! (g + s) ! j =
       (if 0 < count_in_doc data (word_list data ! j) d
        then tfidf_value data d (word_list data ! j)
        else M1 ! (g + s) ! j)"
      by simp
    moreover have "M1 ! (g + s) = M ! (g + s)"
      using sen_loop_other[OF a, of "g + s"] False by simp
    ultimately show ?thesis by simp
  qed
qed

lemma doc_of_mem: "doc_of data ds s = Some d \<Longrightarrow> d \<in> set ds \<and> 0 < sen_size data d"
  by (induction ds arbitrary: s) (auto split: if_splits)

lemma doc_loop_defined:
  "doc_loop data ds g M = Inr (M', g') \<Longrightarrow> d \<in> set ds \<Longrightarrow> 0 < sen_size data d \<Longrightarrow>
   w \<in> set (word_list data) \<Longrightarrow> 0 < count_in_doc data w d \<Longrightarrow> tfidf_defined data d w"
proof (induction ds arbitrary: g M)
  case Nil then show ?case by simp
next
  case (Cons x rest)
  from doc_loop_Cons[OF Cons.prems(1)] obtain M1 g1 where
    a: "sen_loop data x (word_size data x) [0..<sen_size data x] g M = Inr (M1, g1)"
    and b: "doc_loop data rest g1 M1 = Inr (M', g')"
    by metis
  show ?case
  proof (cases "d = x")
    case True
    with Cons.prems(3) have "[0..<sen_size data x] \<noteq> []" by simp
    from sen_loop_defined[OF a this Cons.prems(4)] Cons.prems(5) True
    show ?thesis by (simp add: tfidf_defined_def)
  next
    case False
    with Cons.prems(2) have "d \<in> set rest" by simp
    from Cons.IH[OF b this Cons.prems(3,4,5)] show ?thesis .
  qed
qed

lemma tf_idf_Inr:
  assumes "tf_idf data = Inr (M, v)"
  obtains g where
    "doc_loop data [0..<doc_size data] 0
       (np_zeros (sen_size_total data) (length (word_list data))) = Inr (M, g)"
    "long_sen_loop data (word_size_total data) (word_list data) [] = Inr v"
  using assms by (auto simp: tf_idf_def Let_def split: sum.splits prod.splits)

lemma tf_idf_entry:
  assumes ok: "tf_idf data = Inr (M, v)"
    and dist: "distinct (word_list data)"
    and t: "t < length (word_list data)"
    and s: "s < sen_size_total data"
    and d: "doc_of data [0..<doc_size data] s = Some d"
  shows "M ! s ! t =
       (if 0 < count_in_doc data (word_list data ! t) d
        then tfidf_value data d (word_list data ! t) else 0)"
proof -
  from tf_idf_Inr[OF ok] obtain g where
    a: "doc_loop data [0..<doc_size data] 0
       (np_zeros (sen_size_total data) (length (word_list data))) = Inr (M, g)"
    by metis
  have "np_zeros (sen_size_total data) (length (word_list data)) ! s ! t = 0"
    using s t by (simp add: np_zeros_def)
  with doc_loop_row[OF dist t a d] show ?thesis by simp
qed

lemma tf_idf_shape:
  assumes ok: "tf_idf data = Inr (M, v)"
  shows "map length M = replicate (sen_size_total data) (length (word_list data))"
proof -
  from tf_idf_Inr[OF ok] obtain g where
    a: "doc_loop data [0..<doc_size data] 0
       (np_zeros (sen_size_total data) (length (word_list data))) = Inr (M, g)"
    by metis
  from doc_loop_shape[OF a] show ?thesis by (simp add: np_zeros_def)
qed

lemma list_index_mem: "w \<in> set xs \<Longrightarrow> \<exists>i. list_index xs w = Inr i"
  by (induction xs) auto

lemma map_length_update:
  "map length (M[g := (M ! g)[idx := x]]) = map length M"
proof (cases "g < length M")
  case True
  then show ?thesis by (simp add: map_update list_update_same_conv)
next
  case False
  then have "length M \<le> g" by simp
  then have "M[g := (M ! g)[idx := x]] = M" by (rule list_update_beyond)
  then show ?thesis by (rule arg_cong)
qed

lemma word_loop_error:
  assumes cdw: "\<forall>w\<in>set (word_list data). 0 \<le> count_doc_containing_word data w"
    and n: "0 < doc_size data"
  shows "word_loop data d wsz g ws M = Inl e \<Longrightarrow> set ws \<subseteq> set (word_list data) \<Longrightarrow>
     g < length M \<Longrightarrow> set (map length M) \<subseteq> {length (word_list data)} \<Longrightarrow>
     e = ZeroDivisionError"
proof (induction ws arbitrary: M)
  case Nil then show ?case by simp
next
  case (Cons w ws)
  from Cons.prems(2) have w: "w \<in> set (word_list data)" and ws: "set ws \<subseteq> set (word_list data)"
    by auto
  show ?case
  proof (cases "0 < count_in_doc data w d")
    case False
    with Cons.prems(1) have "word_loop data d wsz g ws M = Inl e"
      by (auto simp: Let_def split: if_splits)
    from Cons.IH[OF this ws Cons.prems(3,4)] show ?thesis .
  next
    case True
    show ?thesis
    proof (cases "wsz = 0")
      case True
      with \<open>0 < count_in_doc data w d\<close> Cons.prems(1) show ?thesis
        by (simp add: Let_def truediv_def)
    next
      case False
      from cdw w have c: "0 \<le> count_doc_containing_word data w" by simp
      then have q: "0 < real (doc_size data) / real_of_int (count_doc_containing_word data w + 1)"
        using n by simp
      from list_index_mem[OF w] obtain idx where idx: "list_index (word_list data) w = Inr idx"
        by blast
      from list_index_Inr[OF idx] have "idx < length (word_list data)" by simp
      moreover from Cons.prems(3,4) have "length (M ! g) = length (word_list data)"
        by (auto simp: subset_iff)
      ultimately have i2: "idx < length (M ! g)" by simp
      let ?x = "(real_of_int (count_in_doc data w d) / real_of_int wsz) *
        ln (real (doc_size data) / real_of_int (count_doc_containing_word data w + 1))"
      let ?M1 = "M[g := (M ! g)[idx := ?x]]"
      from True False c q idx i2 Cons.prems(1,3)
      have "word_loop data d wsz g ws ?M1 = Inl e"
        by (simp add: Let_def truediv_def math_log_def setitem2_def)
      moreover have "g < length ?M1" using Cons.prems(3) by simp
      moreover have "set (map length ?M1) \<subseteq> {length (word_list data)}"
        using Cons.prems(4) by (simp only: map_length_update)
      ultimately show ?thesis using Cons.IH ws by blast
    qed
  qed
qed

lemma sen_loop_error:
  assumes cdw: "\<forall>w\<in>set (word_list data). 0 \<le> count_doc_containing_word data w"
    and n: "0 < doc_size data"
  shows "sen_loop data d wsz sens g M = Inl e \<Longrightarrow> g + length sens \<le> length M \<Longrightarrow>
     set (map length M) \<subseteq> {length (word_list data)} \<Longrightarrow> e = ZeroDivisionError"
proof (induction sens arbitrary: g M)
  case Nil then show ?case by simp
next
  case (Cons x rest)
  from Cons.prems(2) have g: "g < length M" by simp
  show ?case
  proof (cases "word_loop data d wsz g (word_list data) M")
    case (Inl e')
    with Cons.prems(1) have "e' = e" by simp
    with word_loop_error[OF cdw n, of d wsz g "word_list data" M e] Inl g Cons.prems(3)
    show ?thesis by simp
  next
    case (Inr M1)
    with Cons.prems(1) have a: "sen_loop data d wsz rest (g + 1) M1 = Inl e" by simp
    from word_loop_shape[OF Inr] have sh: "map length M1 = map length M" .
    then have "length M1 = length M" by (metis length_map)
    with Cons.prems(2) have "g + 1 + length rest \<le> length M1" by simp
    from Cons.IH[OF a this] sh Cons.prems(3) show ?thesis by simp
  qed
qed

lemma doc_loop_error:
  assumes cdw: "\<forall>w\<in>set (word_list data). 0 \<le> count_doc_containing_word data w"
    and n: "0 < doc_size data"
  shows "doc_loop data ds g M = Inl e \<Longrightarrow>
     g + sum_list (map (sen_size data) ds) \<le> length M \<Longrightarrow>
     set (map length M) \<subseteq> {length (word_list data)} \<Longrightarrow> e = ZeroDivisionError"
proof (induction ds arbitrary: g M)
  case Nil then show ?case by simp
next
  case (Cons x rest)
  show ?case
  proof (cases "sen_loop data x (word_size data x) [0..<sen_size data x] g M")
    case (Inl e')
    with Cons.prems(1) have "e' = e" by (simp add: Let_def)
    with sen_loop_error[OF cdw n, of x "word_size data x" "[0..<sen_size data x]" g M e]
      Inl Cons.prems(2,3)
    show ?thesis by simp
  next
    case (Inr p)
    obtain M1 g1 where p: "p = (M1, g1)" by (cases p)
    with Inr Cons.prems(1) have a: "doc_loop data rest g1 M1 = Inl e" by (simp add: Let_def)
    from sen_loop_shape[OF Inr[unfolded p]]
    have sh: "map length M1 = map length M" and g1: "g1 = g + sen_size data x" by simp_all
    from sh have "length M1 = length M" by (metis length_map)
    with Cons.prems(2) g1 have "g1 + sum_list (map (sen_size data) rest) \<le> length M1" by simp
    from Cons.IH[OF a this] sh Cons.prems(3) show ?thesis by simp
  qed
qed

lemma tf_idf_empty_document:
  assumes d: "d < doc_size data" and sen: "0 < sen_size data d"
    and w: "w \<in> set (word_list data)" and c: "0 < count_in_doc data w d"
    and z: "word_size data d = 0"
    and cdw: "\<forall>w\<in>set (word_list data). 0 \<le> count_doc_containing_word data w"
    and tot: "sum_list (map (sen_size data) [0..<doc_size data]) \<le> sen_size_total data"
  shows "tf_idf data = Inl ZeroDivisionError \<and> summarize py data = Inl ZeroDivisionError"
proof -
  let ?M0 = "np_zeros (sen_size_total data) (length (word_list data))"
  have n: "0 < doc_size data" using d by simp
  have "\<exists>e. doc_loop data [0..<doc_size data] 0 ?M0 = Inl e"
  proof (cases "doc_loop data [0..<doc_size data] 0 ?M0")
    case (Inl e) then show ?thesis by simp
  next
    case (Inr p)
    obtain M g where "p = (M, g)" by (cases p)
    with Inr have "doc_loop data [0..<doc_size data] 0 ?M0 = Inr (M, g)" by simp
    from doc_loop_defined[OF this _ sen w c] d z show ?thesis
      by (simp add: tfidf_defined_def)
  qed
  then obtain e where e: "doc_loop data [0..<doc_size data] 0 ?M0 = Inl e" by blast
  have "e = ZeroDivisionError"
  proof (rule doc_loop_error[OF cdw n e])
    show "0 + sum_list (map (sen_size data) [0..<doc_size data]) \<le> length ?M0"
      using tot by (simp add: np_zeros_def)
    show "set (map length ?M0) \<subseteq> {length (word_list data)}"
      by (auto simp: np_zeros_def)
  qed
  with e have "tf_idf data = Inl ZeroDivisionError"
    by (simp add: tf_idf_def Let_def)
  then show ?thesis by (simp add: summarize_def)
qed

subsection \<open>The example corpora, evaluated\<close>

lemma upt3: "[0..<3] = [0, 1, 2]" by (simp add: upt_rec)

lemma pets_tf_idf:
  "tf_idf pets = Inr ([[0,0,0],[0,0,0],[0,0,0]], [ln (1/2) / 3, ln (1/2) / 3, ln (1/2) / 3])"
  by (simp add: tf_idf_def pets_def np_zeros_def upt3 truediv_def math_log_def setitem2_def
        Let_def numeral_eq_Suc)

lemma upt2: "[0..<2] = [0, 1]" by (simp add: upt_rec)

lemma news_tf_idf:
  "tf_idf news = Inr ([[0, ln (2/3) / 2], [0, ln (2/3)]], [ln (1/2) / 4, 3 * ln (1/2) / 4])"
  by (simp add: tf_idf_def news_def np_zeros_def upt2 truediv_def math_log_def setitem2_def
        Let_def numeral_eq_Suc)

subsection \<open>Cosine similarity\<close>

lemma sum_sq_nonneg: "0 \<le> sum_list (map (\<lambda>x. x * x) (u :: real list))"
  by (induction u) auto

lemma cauchy_schwarz_list:
  "length u = length v \<Longrightarrow>
     \<bar>sum_list (map (\<lambda>(x, y). x * y) (zip u v))\<bar>
       \<le> sqrt (sum_list (map (\<lambda>x. x * x) u)) * sqrt (sum_list (map (\<lambda>x. x * x) (v :: real list)))"
proof (induction u v rule: list_induct2)
  case Nil then show ?case by simp
next
  case (Cons a us b vs)
  let ?C = "sum_list (map (\<lambda>(x, y). x * y) (zip us vs))"
  let ?A = "sum_list (map (\<lambda>x. x * x) us)"
  let ?B = "sum_list (map (\<lambda>x. x * x) vs)"
  have A: "0 \<le> ?A" and B: "0 \<le> ?B" by (rule sum_sq_nonneg)+
  have ih: "\<bar>?C\<bar> \<le> sqrt ?A * sqrt ?B" by (rule Cons.IH)
  let ?p = "\<bar>a\<bar> * sqrt ?B" and ?q = "\<bar>b\<bar> * sqrt ?A"
  have pq: "2 * ?p * ?q \<le> ?p\<^sup>2 + ?q\<^sup>2" by (rule sum_squares_bound)
  have p2: "?p\<^sup>2 = a * a * ?B" using B by (simp add: power_mult_distrib power2_eq_square[of a])
  have q2: "?q\<^sup>2 = b * b * ?A" using A by (simp add: power_mult_distrib power2_eq_square[of b])
  have "\<bar>a * b\<bar> * \<bar>?C\<bar> \<le> \<bar>a * b\<bar> * (sqrt ?A * sqrt ?B)"
    using ih by (rule mult_left_mono) simp
  moreover have "a * b * ?C \<le> \<bar>a * b\<bar> * \<bar>?C\<bar>"
    by (metis abs_ge_self abs_mult)
  ultimately have "2 * (a * b) * ?C \<le> 2 * ?p * ?q"
    by (simp add: abs_mult algebra_simps)
  with pq p2 q2 have cross: "2 * (a * b) * ?C \<le> a * a * ?B + b * b * ?A" by linarith
  have "?C\<^sup>2 \<le> (sqrt ?A * sqrt ?B)\<^sup>2"
    using ih by (metis abs_le_square_iff abs_ge_zero abs_of_nonneg order_trans)
  then have c2: "?C * ?C \<le> ?A * ?B"
    using A B by (simp add: power_mult_distrib power2_eq_square[of ?C])
  have "(a * b + ?C)\<^sup>2 \<le> (a * a + ?A) * (b * b + ?B)"
    using cross c2 by (simp add: power2_eq_square algebra_simps)
  then have "\<bar>a * b + ?C\<bar> \<le> sqrt ((a * a + ?A) * (b * b + ?B))"
    by (rule real_le_rsqrt[OF _, of "\<bar>a * b + ?C\<bar>", simplified])
  then show ?case by (simp add: real_sqrt_mult)
qed

lemma cos_unit_range: "\<bar>x\<bar> \<le> 1 \<Longrightarrow> 0 \<le> cos (x::real) \<and> cos x \<le> 1"
proof
  assume "\<bar>x\<bar> \<le> 1"
  with pi_ge_two have "- (pi / 2) \<le> x" "x \<le> pi / 2" by linarith+
  then show "0 \<le> cos x" by (rule cos_ge_zero)
  show "cos x \<le> 1" by (rule cos_le_one)
qed

lemma cos_similarity_nonzero:
  assumes "length u = length v" "linalg_norm u \<noteq> 0" "linalg_norm v \<noteq> 0"
  shows "cos_similarity u v =
     Inr (Fin (cos (sum_list (map (\<lambda>(x, y). x * y) (zip u v)) / (linalg_norm u * linalg_norm v))))"
  using assms by (simp add: cos_similarity_def dot_def np_divide_def Let_def)

lemma cos_similarity_finite:
  assumes "length u = length v" "linalg_norm u \<noteq> 0" "linalg_norm v \<noteq> 0"
  shows "\<exists>r. cos_similarity u v = Inr (Fin r) \<and> 0 \<le> r \<and> r \<le> 1"
proof -
  let ?C = "sum_list (map (\<lambda>(x, y). x * y) (zip u v))"
  have nu: "0 < linalg_norm u" and nv: "0 < linalg_norm v"
    using assms(2,3) sum_sq_nonneg[of u] sum_sq_nonneg[of v]
    by (simp_all add: linalg_norm_def less_le)
  then have pos: "0 < linalg_norm u * linalg_norm v" by simp
  have "\<bar>?C\<bar> \<le> linalg_norm u * linalg_norm v"
    using cauchy_schwarz_list[OF assms(1)] by (simp add: linalg_norm_def)
  with pos have "\<bar>?C\<bar> / (linalg_norm u * linalg_norm v) \<le> 1"
    by (simp add: divide_le_eq)
  with pos have "\<bar>?C / (linalg_norm u * linalg_norm v)\<bar> \<le> 1"
    by (simp only: abs_divide abs_of_pos)
  from cos_unit_range[OF this] show ?thesis
    unfolding cos_similarity_nonzero[OF assms] by simp
qed

subsection \<open>Sorting and the ranking\<close>

lemma sort_reverse_contract: "sort_contract (sort_reverse py)"
  using Rep_list_sort[of py] by (simp add: sort_reverse_def)

lemma sort_reverse_insertion: "sort_reverse insertion_sort = isort_reverse"
  by (simp add: sort_reverse_def insertion_sort_def Abs_list_sort_inverse isort_reverse_contract)

lemma sort_reverse_mset: "mset (sort_reverse py xs) = mset xs"
  using sort_reverse_contract[of py] by (simp add: sort_contract_def)

lemma sort_reverse_set:
  "set (sort_reverse py xs) = set xs \<and> length (sort_reverse py xs) = length xs"
  using sort_reverse_mset[of py xs] by (metis mset_eq_setD size_mset)

lemma sort_reverse_sorted:
  assumes "\<forall>y\<in>set xs. \<exists>r. fst y = Fin r"
  shows "sorted_wrt (\<lambda>a b. \<not> tuple_lt a b) (sort_reverse py xs)"
  using sort_reverse_contract[of py] assms by (simp add: sort_contract_def is_number_iff)

text \<open>
  A list of tuples whose scores are numbers has one sorted permutation only, so for such
  a list every sort that meets the contract returns what the insertion sort returns.
\<close>

lemma sorted_numbers_unique:
  "mset xs = mset ys \<Longrightarrow> \<forall>x\<in>set xs. \<exists>r. fst x = Fin r \<Longrightarrow>
   sorted_wrt (\<lambda>a b. \<not> tuple_lt a b) xs \<Longrightarrow> sorted_wrt (\<lambda>a b. \<not> tuple_lt a b) ys \<Longrightarrow>
   xs = ys"
proof (induction xs arbitrary: ys)
  case Nil then show ?case by simp
next
  case (Cons x xs)
  from Cons.prems(1) obtain y ys' where ys: "ys = y # ys'"
    by (cases ys) auto
  have sets: "set (x # xs) = set (y # ys')"
    using Cons.prems(1) ys by (metis mset_eq_setD)
  obtain a i where x: "x = (Fin a, i)" using Cons.prems(2) by (cases x) auto
  have "\<exists>r. fst y = Fin r" using Cons.prems(2) sets by (metis list.set_intros(1))
  then obtain b j where y: "y = (Fin b, j)" by (cases y) auto
  have "\<not> tuple_lt x y"
  proof (cases "y = x")
    case True then show ?thesis by (simp add: x tuple_lt_Fin)
  next
    case False
    with sets have "y \<in> set xs" by (metis list.set_intros(1) set_ConsD)
    with Cons.prems(3) show ?thesis by simp
  qed
  moreover have "\<not> tuple_lt y x"
  proof (cases "x = y")
    case True then show ?thesis by (simp add: y tuple_lt_Fin)
  next
    case False
    with sets have "x \<in> set ys'" by (metis list.set_intros(1) set_ConsD)
    with Cons.prems(4) ys show ?thesis by simp
  qed
  ultimately have xy: "x = y" by (auto simp: x y tuple_lt_Fin)
  with Cons.prems(1) ys have "mset xs = mset ys'" by simp
  moreover have "\<forall>x\<in>set xs. \<exists>r. fst x = Fin r" using Cons.prems(2) by simp
  moreover have "sorted_wrt (\<lambda>a b. \<not> tuple_lt a b) xs" using Cons.prems(3) by simp
  moreover have "sorted_wrt (\<lambda>a b. \<not> tuple_lt a b) ys'" using Cons.prems(4) ys by simp
  ultimately have "xs = ys'" by (rule Cons.IH)
  with xy ys show ?case by simp
qed

lemma sort_reverse_numbers:
  assumes "\<forall>x\<in>set xs. \<exists>r. fst x = Fin r"
  shows "sort_reverse py xs = isort_reverse xs"
proof (rule sorted_numbers_unique)
  show "mset (sort_reverse py xs) = mset (isort_reverse xs)"
    using sort_reverse_mset[of py xs] sort_reverse_mset[of insertion_sort xs]
    by (simp add: sort_reverse_insertion)
  show "\<forall>x\<in>set (sort_reverse py xs). \<exists>r. fst x = Fin r"
    using assms sort_reverse_set[of py xs] by simp
  show "sorted_wrt (\<lambda>a b. \<not> tuple_lt a b) (sort_reverse py xs)"
    using assms by (rule sort_reverse_sorted)
  show "sorted_wrt (\<lambda>a b. \<not> tuple_lt a b) (isort_reverse xs)"
    using sort_reverse_sorted[OF assms, of insertion_sort] by (simp add: sort_reverse_insertion)
qed

lemma ranking_Nil: "ranking py [] v = Inr []"
  using sort_reverse_set[of py "[]"] by (simp add: ranking_def)

lemma sim_loop_scores:
  "sim_loop M v rs acc = Inr sl \<Longrightarrow>
   \<forall>y\<in>set acc. cos_similarity (M ! snd y) v = Inr (fst y) \<Longrightarrow>
   \<forall>y\<in>set sl. cos_similarity (M ! snd y) v = Inr (fst y)"
proof (induction rs arbitrary: acc)
  case Nil then show ?case by simp
next
  case (Cons r rs)
  from Cons.prems(1) obtain c where
    c: "cos_similarity (M ! r) v = Inr c" and
    rest: "sim_loop M v rs (acc @ [(c, r)]) = Inr sl"
    by (auto simp: getitem_def split: sum.splits if_splits)
  have "\<forall>y\<in>set (acc @ [(c, r)]). cos_similarity (M ! snd y) v = Inr (fst y)"
    using Cons.prems(2) c by auto
  from Cons.IH[OF rest this] show ?case .
qed

lemma sim_loop_ok:
  assumes "linalg_norm v \<noteq> 0"
  shows "\<forall>r\<in>set rs. r < length M \<and> length (M ! r) = length v \<and> linalg_norm (M ! r) \<noteq> 0 \<Longrightarrow>
     \<forall>y\<in>set acc. \<exists>r. fst y = Fin r \<Longrightarrow>
     \<exists>sl. sim_loop M v rs acc = Inr sl \<and> map snd sl = map snd acc @ rs \<and>
          (\<forall>y\<in>set sl. \<exists>r. fst y = Fin r)"
proof (induction rs arbitrary: acc)
  case Nil then show ?case by simp
next
  case (Cons r rs)
  from Cons.prems(1) have r: "r < length M" "length (M ! r) = length v" "linalg_norm (M ! r) \<noteq> 0"
    by simp_all
  from cos_similarity_finite[OF r(2,3) assms] obtain c where
    c: "cos_similarity (M ! r) v = Inr (Fin c)" by blast
  have "\<forall>y\<in>set (acc @ [(Fin c, r)]). \<exists>r. fst y = Fin r" using Cons.prems(2) by auto
  with Cons.IH[of "acc @ [(Fin c, r)]"] Cons.prems(1) obtain sl where
    "sim_loop M v rs (acc @ [(Fin c, r)]) = Inr sl"
    "map snd sl = map snd (acc @ [(Fin c, r)]) @ rs" "\<forall>y\<in>set sl. \<exists>r. fst y = Fin r"
    by auto
  with r(1) c show ?case by (simp add: getitem_def)
qed

lemma ranking_sorted:
  assumes rows: "\<forall>row\<in>set M. length row = length v \<and> linalg_norm row \<noteq> 0"
    and v: "linalg_norm v \<noteq> 0"
  shows "\<exists>sl. ranking py M v = Inr sl \<and> length sl = length M \<and>
       distinct (map snd sl) \<and> set (map snd sl) = {..<length M} \<and>
       (\<forall>p. p < length sl \<longrightarrow> cos_similarity (M ! snd (sl ! p)) v = Inr (fst (sl ! p))) \<and>
       (\<forall>p q. p < q \<and> q < length sl \<longrightarrow>
          float_lt (fst (sl ! q)) (fst (sl ! p)) \<or>
          (fst (sl ! q) = fst (sl ! p) \<and> snd (sl ! q) < snd (sl ! p)))"
proof -
  have "\<forall>r\<in>set [0..<length M]. r < length M \<and> length (M ! r) = length v \<and> linalg_norm (M ! r) \<noteq> 0"
    using rows by simp
  from sim_loop_ok[OF v this, of "[]"] obtain sl0 where
    sl0: "sim_loop M v [0..<length M] [] = Inr sl0" "map snd sl0 = [0..<length M]"
      "\<forall>y\<in>set sl0. \<exists>r. fst y = Fin r"
    by auto
  let ?sl = "sort_reverse py sl0"
  from sort_reverse_sorted[OF sl0(3)] sort_reverse_set[of py sl0] have
    srt: "sorted_wrt (\<lambda>a b. \<not> tuple_lt a b) ?sl" and st: "set ?sl = set sl0"
    and len: "length ?sl = length sl0"
    by simp_all
  have sc: "cos_similarity (M ! snd (?sl ! p)) v = Inr (fst (?sl ! p))" if "p < length ?sl" for p
  proof -
    from sim_loop_scores[OF sl0(1)] have "\<forall>y\<in>set sl0. cos_similarity (M ! snd y) v = Inr (fst y)"
      by simp
    moreover from that st have "?sl ! p \<in> set sl0" by (metis nth_mem)
    ultimately show ?thesis by blast
  qed
  have len0: "length sl0 = length M" using sl0(2) by (metis length_map length_upt minus_nat.diff_0)
  have set_snd: "set (map snd ?sl) = {..<length M}"
  proof -
    have "set (map snd ?sl) = snd ` set sl0" using st by simp
    also have "\<dots> = set (map snd sl0)" by simp
    also have "\<dots> = {..<length M}" unfolding sl0(2) by auto
    finally show ?thesis .
  qed
  have dist: "distinct (map snd ?sl)"
  proof (rule card_distinct)
    show "card (set (map snd ?sl)) = length (map snd ?sl)"
      unfolding set_snd using len len0 by simp
  qed
  have ord: "float_lt (fst (?sl ! q)) (fst (?sl ! p)) \<or>
          (fst (?sl ! q) = fst (?sl ! p) \<and> snd (?sl ! q) < snd (?sl ! p))"
    if "p < q" "q < length ?sl" for p q
  proof -
    from that have p: "p < length ?sl" by simp
    from srt that have n: "\<not> tuple_lt (?sl ! p) (?sl ! q)"
      by (simp add: sorted_wrt_iff_nth_less)
    from p st sl0(3) obtain a where a: "fst (?sl ! p) = Fin a" by (metis nth_mem)
    from that(2) st sl0(3) obtain b where b: "fst (?sl ! q) = Fin b" by (metis nth_mem)
    from dist that p have ne: "snd (?sl ! p) \<noteq> snd (?sl ! q)"
      by (metis distinct_conv_nth length_map nat_neq_iff nth_map)
    from n a b ne show ?thesis
      by (cases "?sl ! p"; cases "?sl ! q") (auto simp: tuple_lt_Fin)
  qed
  from sl0(1) len len0 dist set_snd ord sc show ?thesis
    by (simp add: ranking_def)
qed

subsection \<open>The selection loop\<close>

lemma select_step_budget:
  "665 \<le> sum_size st \<Longrightarrow> select_step data M sl st = Inr None"
  by (simp add: select_step_def)

lemma select_step_Some:
  assumes "select_step data M sl st = Inr (Some st')"
  shows "sum_size st < 665 \<and> current_rank st < length sl \<and>
     current_rank st' = current_rank st + 1 \<and>
     (st' = st\<lparr>current_rank := current_rank st + 1\<rparr> \<or>
      (\<exists>x. summary st' = summary st @ [x] \<and> sum_size st' = sum_size st + length x \<and>
           base_rank st' = current_rank st))"
  using assms
  by (auto simp: select_step_def getitem_def Let_def split: if_splits sum.splits)

lemma select_step_None:
  assumes "select_step data M sl st = Inr None"
  shows "665 \<le> sum_size st \<or> current_rank st = length sl"
  using assms
  by (auto simp: select_step_def getitem_def Let_def split: if_splits sum.splits)

lemma select_loop_result:
  "select_loop data M sl st = Inr st' \<Longrightarrow>
     sum_size st \<le> sum_size st' \<and> (\<exists>ys. summary st' = summary st @ ys) \<and>
     (665 \<le> sum_size st' \<or> current_rank st' = length sl)"
proof (induction data M sl st rule: select_loop.induct)
  case (1 data M sl st)
  show ?case
  proof (cases "select_step data M sl st")
    case (Inl e)
    with "1.prems" show ?thesis by (simp add: select_loop.simps[of data M sl st])
  next
    case (Inr r)
    show ?thesis
    proof (cases r)
      case None
      with Inr "1.prems" have "st' = st" by (simp add: select_loop.simps[of data M sl st])
      with select_step_None[OF Inr[unfolded None]] show ?thesis by simp
    next
      case (Some st1)
      with Inr "1.prems" have "select_loop data M sl st1 = Inr st'"
        by (simp add: select_loop.simps[of data M sl st])
      from "1.IH"[OF Inr Some this] select_step_Some[OF Inr[unfolded Some]]
      show ?thesis by auto
    qed
  qed
qed

lemma select_step_wf:
  assumes "current_rank st \<le> length sl" "base_rank st < length sl"
    "\<forall>x\<in>set sl. snd x < length M" "\<forall>row\<in>set M. length row = n"
  shows "\<exists>r. select_step data M sl st = Inr r \<and>
     (\<forall>st1. r = Some st1 \<longrightarrow> current_rank st1 \<le> length sl \<and> base_rank st1 < length sl)"
proof (cases "current_rank st = length sl \<or> 665 \<le> sum_size st")
  case True
  then show ?thesis by (auto simp: select_step_def)
next
  case False
  with assms(1) have c: "current_rank st < length sl" by simp
  let ?cur = "sl ! current_rank st" and ?bas = "sl ! base_rank st"
  from c assms(2,3) have i: "snd ?cur < length M" "snd ?bas < length M" by simp_all
  with assms(4) have "length (M ! snd ?cur) = length (M ! snd ?bas)" by simp
  then obtain sim where "cos_similarity (M ! snd ?cur) (M ! snd ?bas) = Inr sim"
    by (simp add: cos_similarity_def dot_def)
  with False c assms(2) i show ?thesis
    by (simp add: select_step_def getitem_def Let_def)
qed

lemma select_loop_total:
  "current_rank st \<le> length sl \<Longrightarrow> base_rank st < length sl \<Longrightarrow>
   \<forall>x\<in>set sl. snd x < length M \<Longrightarrow> \<forall>row\<in>set M. length row = n \<Longrightarrow>
   \<exists>st'. select_loop data M sl st = Inr st'"
proof (induction data M sl st rule: select_loop.induct)
  case (1 data M sl st)
  from select_step_wf[OF "1.prems", of data] obtain r where
    r: "select_step data M sl st = Inr r"
    and nxt: "\<forall>st1. r = Some st1 \<longrightarrow> current_rank st1 \<le> length sl \<and> base_rank st1 < length sl"
    by blast
  show ?case
  proof (cases r)
    case None
    with r show ?thesis by (simp add: select_loop.simps[of data M sl st])
  next
    case (Some st1)
    with nxt have "current_rank st1 \<le> length sl" "base_rank st1 < length sl" by simp_all
    from "1.IH"[OF r Some this "1.prems"(3,4)] r Some show ?thesis
      by (simp add: select_loop.simps[of data M sl st])
  qed
qed

lemma sim_loop_snd:
  "sim_loop M v rs acc = Inr sl \<Longrightarrow> map snd sl = map snd acc @ rs"
  by (induction rs arbitrary: acc) (auto split: sum.splits)

lemma sim_loop_rows:
  "\<forall>r\<in>set rs. r < length M \<and> length (M ! r) = length v \<Longrightarrow>
     \<exists>sl. sim_loop M v rs acc = Inr sl"
proof (induction rs arbitrary: acc)
  case Nil then show ?case by simp
next
  case (Cons r rs)
  then obtain c where "cos_similarity (M ! r) v = Inr c"
    by (auto simp: cos_similarity_def dot_def)
  with Cons show ?case by (simp add: getitem_def)
qed

lemma summarize_total:
  assumes ok: "tf_idf data = Inr (M, v)" and n: "0 < sen_size_total data"
  shows "\<exists>s. summarize py data = Inr s \<and> s \<noteq> []"
proof -
  let ?n = "length (word_list data)"
  from tf_idf_shape[OF ok] have sh: "map length M = replicate (sen_size_total data) ?n" .
  then have lenM: "length M = sen_size_total data" by (metis length_map length_replicate)
  have rows: "\<forall>row\<in>set M. length row = ?n"
  proof
    fix row assume "row \<in> set M"
    then have "length row \<in> set (map length M)" by simp
    then show "length row = ?n" unfolding sh by simp
  qed
  from tf_idf_Inr[OF ok] have "long_sen_loop data (word_size_total data) (word_list data) [] = Inr v"
    by metis
  from long_sen_loop_spec[OF this] have lv: "length v = ?n" by simp
  have "\<forall>r\<in>set [0..<length M]. r < length M \<and> length (M ! r) = length v"
    using rows lv by simp
  from sim_loop_rows[OF this, of "[]"] obtain sl0 where
    sl0: "sim_loop M v [0..<length M] [] = Inr sl0" by blast
  from sim_loop_snd[OF sl0] have snd0: "map snd sl0 = [0..<length M]" by simp
  let ?sl = "sort_reverse py sl0"
  have rk: "ranking py M v = Inr ?sl" using sl0 by (simp add: ranking_def)
  have len: "length ?sl = length M"
    using sort_reverse_set[of py sl0] snd0 by (metis length_map length_upt minus_nat.diff_0)
  have idx: "\<forall>x\<in>set ?sl. snd x < length M"
  proof
    fix x assume "x \<in> set ?sl"
    then have "x \<in> set sl0" using sort_reverse_set[of py sl0] by simp
    then have "snd x \<in> set (map snd sl0)" by simp
    then show "snd x < length M" unfolding snd0 by simp
  qed
  let ?first = "abstract data (snd (?sl ! 0))"
  let ?st0 = "\<lparr>base_rank = 0, current_rank = 1, summary = [?first], sum_size = length ?first\<rparr>"
  have "\<exists>st'. select_loop data M ?sl ?st0 = Inr st'"
  proof (rule select_loop_total[where n = ?n])
    show "current_rank ?st0 \<le> length ?sl" using len lenM n by simp
    show "base_rank ?st0 < length ?sl" using len lenM n by simp
    show "\<forall>x\<in>set ?sl. snd x < length M" by (rule idx)
    show "\<forall>row\<in>set M. length row = ?n" by (rule rows)
  qed
  then obtain st' where st': "select_loop data M ?sl ?st0 = Inr st'" by blast
  from select_loop_result[OF st'] have "summary st' \<noteq> []" by auto
  with ok rk st' len lenM n show ?thesis
    by (simp add: summarize_def getitem_def Let_def)
qed

lemma pets_step: "select_step pets pets_matrix pets_sim_lst pets_st0 = Inr (Some (pets_st0\<lparr>current_rank := 2\<rparr>))"
  by (simp add: select_step_def pets_matrix_def pets_sim_lst_def pets_st0_def getitem_def
      cos_similarity_def dot_def linalg_norm_def np_divide_def)

subsection \<open>The redundancy test of the selection loop\<close>

text \<open>
  With floats idealised as real numbers, every number that \<^verbatim>\<open>cos_similarity\<close> returns
  is at least \<open>cos 1\<close>, which is more than 0.539, and no comparison with \<^verbatim>\<open>nan\<close> holds:
  in this model the test \<^verbatim>\<open>sim < 0.539\<close> of the selection loop never succeeds, and a
  summary that is returned consists of the top-ranked sentence alone. (Rounding at the
  limits of the float range is outside the model.)
\<close>

lemma cos_one_lower: "389 / 720 \<le> cos (1::real)"
proof -
  obtain t :: real where t: "cos (1::real) = (\<Sum>m<6. cos_coeff m * 1 ^ m) + cos (t + 1/2 * real 6 * pi) / fact 6 * 1 ^ 6"
    using Maclaurin_cos_expansion2[of 1 6] by auto
  have s: "(\<Sum>m<6. f m) = f 0 + f 1 + f 2 + f 3 + f 4 + f (5::nat)" for f :: "nat \<Rightarrow> real"
    by (simp add: numeral_eq_Suc)
  have a: "(\<Sum>m<6. cos_coeff m * (1::real) ^ m) = 13/24"
    unfolding s by (simp add: cos_coeff_def fact_numeral)
  have b: "- 1 \<le> cos (t + 1/2 * real 6 * pi)" by (rule cos_ge_minus_one)
  have c: "fact 6 = (720::real)" by (simp add: fact_numeral)
  have "cos (1::real) = 13/24 + cos (t + 1/2 * real 6 * pi) / 720"
    using t unfolding a c by simp
  with b show ?thesis by linarith
qed

lemma cos_ge_cos_one: "\<bar>x\<bar> \<le> 1 \<Longrightarrow> cos 1 \<le> cos (x::real)"
proof -
  assume "\<bar>x\<bar> \<le> 1"
  moreover have "(1::real) \<le> pi" using pi_ge_two by linarith
  ultimately have "cos 1 \<le> cos \<bar>x\<bar>" by (intro cos_monotone_0_pi_le) simp_all
  then show ?thesis by simp
qed

lemma cos_similarity_ratio_bound:
  assumes "length u = length v" "linalg_norm u \<noteq> 0" "linalg_norm v \<noteq> 0"
  shows "\<bar>sum_list (map (\<lambda>(x, y). x * y) (zip u v)) / (linalg_norm u * linalg_norm v)\<bar> \<le> 1"
proof -
  let ?C = "sum_list (map (\<lambda>(x, y). x * y) (zip u v))"
  have nu: "0 < linalg_norm u" and nv: "0 < linalg_norm v"
    using assms(2,3) sum_sq_nonneg[of u] sum_sq_nonneg[of v]
    by (simp_all add: linalg_norm_def less_le)
  then have pos: "0 < linalg_norm u * linalg_norm v" by simp
  have "\<bar>?C\<bar> \<le> linalg_norm u * linalg_norm v"
    using cauchy_schwarz_list[OF assms(1)] by (simp add: linalg_norm_def)
  with pos have "\<bar>?C\<bar> / (linalg_norm u * linalg_norm v) \<le> 1"
    by (simp add: divide_le_eq)
  with pos show ?thesis
    by (simp only: abs_divide abs_of_pos)
qed

lemma cos_similarity_not_below_threshold:
  assumes "cos_similarity u v = Inr sim"
  shows "\<not> float_lt sim (Fin (539 / 1000))"
proof (cases "linalg_norm u = 0 \<or> linalg_norm v = 0")
  case True
  with assms show ?thesis
    by (auto simp: cos_similarity_def dot_def np_divide_def split: if_splits)
next
  case False
  from assms have len: "length u = length v"
    by (auto simp: cos_similarity_def dot_def split: if_splits)
  let ?q = "sum_list (map (\<lambda>(x, y). x * y) (zip u v)) / (linalg_norm u * linalg_norm v)"
  from False have n: "linalg_norm u \<noteq> 0" "linalg_norm v \<noteq> 0" by simp_all
  from cos_similarity_nonzero[OF len n] assms have sim: "sim = Fin (cos ?q)" by simp
  from cos_ge_cos_one[OF cos_similarity_ratio_bound[OF len n]] cos_one_lower
  have "539 / 1000 < cos ?q" by linarith
  with sim show ?thesis by simp
qed

lemma select_step_no_append:
  assumes "select_step data M sl st = Inr (Some st')"
  shows "st' = st\<lparr>current_rank := current_rank st + 1\<rparr>"
  using assms
  by (auto simp: select_step_def Let_def dest: cos_similarity_not_below_threshold
      split: if_splits sum.splits)

lemma select_loop_no_append:
  "select_loop data M sl st = Inr st' \<Longrightarrow> summary st' = summary st"
proof (induction data M sl st rule: select_loop.induct)
  case (1 data M sl st)
  show ?case
  proof (cases "select_step data M sl st")
    case (Inl e)
    with "1.prems" show ?thesis by (simp add: select_loop.simps[of data M sl st])
  next
    case (Inr r)
    show ?thesis
    proof (cases r)
      case None
      with Inr "1.prems" show ?thesis by (simp add: select_loop.simps[of data M sl st])
    next
      case (Some st1)
      with Inr "1.prems" have "select_loop data M sl st1 = Inr st'"
        by (simp add: select_loop.simps[of data M sl st])
      from "1.IH"[OF Inr Some this] select_step_no_append[OF Inr[unfolded Some]]
      show ?thesis by simp
    qed
  qed
qed

lemma summarize_one_sentence:
  assumes "summarize py data = Inr s"
  shows "length s = 1"
proof -
  from assms obtain M v sl p st where
    "select_loop data M sl \<lparr>base_rank = 0, current_rank = 1,
        summary = [abstract data (snd p)], sum_size = length (abstract data (snd p))\<rparr> = Inr st"
    and "s = summary st"
    by (auto simp del: select_loop.simps simp: summarize_def Let_def split: sum.splits prod.splits)
  with select_loop_no_append[OF this(1)] show ?thesis by simp
qed

section \<open>The claims\<close>

subsection \<open>C1: what \<^verbatim>\<open>cos_similarity\<close> returns\<close>

text \<open>
  Claim C1 says that the function returns the quotient of the dot product and the two
  norms, so that a vector compared with itself gives 1. The function returns the cosine
  of that quotient. For the vector with the single entry 1, compared with itself, the
  quotient is 1 and the result is \<open>cos 1\<close>, which is at most \<open>13/24\<close>.
\<close>

theorem cos_similarity_unit_vector:
  "cos_similarity [1] [1] = Inr (Fin (cos 1)) \<and> cos (1::real) \<le> 13 / 24"
  using cos_one_bound
  by (simp add: cos_similarity_def dot_def linalg_norm_def np_divide_def)

subsection \<open>C2: the order of the ranking\<close>

text \<open>
  Two rows with the same score: row 1 is ranked before row 0, so a tie is not broken
  by ascending sentence index. The scores are numbers, so every sort that meets the
  contract gives this ranking; it is evaluated with the insertion sort.
\<close>

theorem ranking_tie_counterexample:
  "ranking insertion_sort [[1], [1]] [1] = Inr [(Fin (cos 1), 1), (Fin (cos 1), 0)] \<and>
   ranking insertion_sort [[1], [1]] [1] \<noteq> Inr [(Fin (cos 1), 0), (Fin (cos 1), 1)]"
  by (simp add: ranking_def cos_similarity_def dot_def linalg_norm_def np_divide_def
        getitem_def sort_reverse_insertion isort_reverse_def tuple_lt_def upt_rec)

text \<open>
  Claim C2, amended: when every row and the long sentence vector have a nonzero norm (so
  that every score is a number), the ranking has one pair for every row, the score of
  each pair is the cosine similarity of the row with the pair's index and the long
  sentence vector, the scores descend, and of two pairs with equal scores the one with
  the larger sentence index comes first.
\<close>

theorem ranking_order:
  assumes "\<forall>row\<in>set M. length row = length v \<and> linalg_norm row \<noteq> 0"
    and "linalg_norm v \<noteq> 0"
  shows "\<exists>sl. ranking py M v = Inr sl \<and> length sl = length M \<and>
       distinct (map snd sl) \<and> set (map snd sl) = {..<length M} \<and>
       (\<forall>p. p < length sl \<longrightarrow> cos_similarity (M ! snd (sl ! p)) v = Inr (fst (sl ! p))) \<and>
       (\<forall>p q. p < q \<and> q < length sl \<longrightarrow>
          float_lt (fst (sl ! q)) (fst (sl ! p)) \<or>
          (fst (sl ! q) = fst (sl ! p) \<and> snd (sl ! q) < snd (sl ! p)))"
  using assms by (rule ranking_sorted)

theorem ranking_order_witness:
  "length [1, 1 :: real] = length [1, 1 :: real] \<and> linalg_norm [1, 0] \<noteq> 0 \<and>
   linalg_norm [1, 1] \<noteq> 0 \<and>
   (\<exists>sl. ranking insertion_sort [[1, 0], [1, 1]] [1, 1] = Inr sl \<and> length sl = 2 \<and>
       distinct (map snd sl) \<and> set (map snd sl) = {..<2} \<and>
       cos_similarity ([[1, 0], [1, 1]] ! snd (sl ! 0)) [1, 1] = Inr (fst (sl ! 0)) \<and>
       cos_similarity ([[1, 0], [1, 1]] ! snd (sl ! 1)) [1, 1] = Inr (fst (sl ! 1)) \<and>
       (float_lt (fst (sl ! 1)) (fst (sl ! 0)) \<or>
        (fst (sl ! 1) = fst (sl ! 0) \<and> snd (sl ! 1) < snd (sl ! 0))))"
proof -
  have n0: "linalg_norm [1, 0] \<noteq> 0" by (simp add: linalg_norm_def)
  have b: "linalg_norm [1, 1] \<noteq> 0" by (simp add: linalg_norm_def)
  have a: "\<forall>row\<in>set [[1, 0], [1, 1 :: real]].
      length row = length [1, 1 :: real] \<and> linalg_norm row \<noteq> 0"
    using n0 b by simp
  from ranking_order[OF a b, of insertion_sort] obtain sl where
    sl: "ranking insertion_sort [[1, 0], [1, 1]] [1, 1] = Inr sl" "length sl = 2"
      "distinct (map snd sl)" "set (map snd sl) = {..<2}"
    and sc: "\<forall>p. p < length sl \<longrightarrow>
          cos_similarity ([[1, 0], [1, 1]] ! snd (sl ! p)) [1, 1] = Inr (fst (sl ! p))"
    and ord: "\<forall>p q. p < q \<and> q < length sl \<longrightarrow>
          float_lt (fst (sl ! q)) (fst (sl ! p)) \<or>
          (fst (sl ! q) = fst (sl ! p) \<and> snd (sl ! q) < snd (sl ! p))"
    by auto
  from ord sl(2) have o: "float_lt (fst (sl ! 1)) (fst (sl ! 0)) \<or>
        (fst (sl ! 1) = fst (sl ! 0) \<and> snd (sl ! 1) < snd (sl ! 0))"
    by simp
  from sc sl(2) have
    "cos_similarity ([[1, 0], [1, 1]] ! snd (sl ! 0)) [1, 1] = Inr (fst (sl ! 0))"
    "cos_similarity ([[1, 0], [1, 1]] ! snd (sl ! 1)) [1, 1] = Inr (fst (sl ! 1))"
    by simp_all
  with sl n0 b o show ?thesis by auto
qed

subsection \<open>C3: a vector of norm zero\<close>

text \<open>The zero vector compared with another vector gives \<^verbatim>\<open>nan\<close>, not 0.\<close>

theorem zero_norm_counterexample:
  "linalg_norm [0] = 0 \<and> cos_similarity [0] [1] = Inr NaN \<and> cos_similarity [0] [1] \<noteq> Inr (Fin 0)"
  by (simp add: cos_similarity_def dot_def linalg_norm_def np_divide_def)

text \<open>
  Claim C3, amended: for two vectors of the same length of which at least one has norm
  zero, \<^verbatim>\<open>cos_similarity\<close> raises nothing and returns \<^verbatim>\<open>nan\<close>.
\<close>

theorem zero_norm_gives_nan:
  assumes "length u = length v" and "linalg_norm u = 0 \<or> linalg_norm v = 0"
  shows "cos_similarity u v = Inr NaN"
  using assms by (auto simp: cos_similarity_def dot_def np_divide_def)

theorem zero_norm_gives_nan_witness:
  "length [0, 0 :: real] = length [1, 2 :: real] \<and>
   (linalg_norm [0, 0] = 0 \<or> linalg_norm [1, 2] = 0) \<and>
   cos_similarity [0, 0] [1, 2] = Inr NaN"
proof -
  have a: "length [0, 0 :: real] = length [1, 2 :: real]" by simp
  have b: "linalg_norm [0, 0] = 0 \<or> linalg_norm [1, 2] = 0" by (simp add: linalg_norm_def)
  from a b zero_norm_gives_nan[OF a b] show ?thesis by blast
qed

subsection \<open>C4: a corpus without sentences\<close>

text \<open>
  For the corpus with no document, \<^verbatim>\<open>summarize\<close> raises \<^verbatim>\<open>IndexError\<close> (the ranking is
  empty, whatever the sort).
\<close>

theorem summarize_empty_corpus_counterexample:
  "sen_size_total empty_corpus = 0 \<and> doc_size empty_corpus = 0 \<and>
   summarize insertion_sort empty_corpus = Inl IndexError"
  by (simp add: summarize_def tf_idf_def empty_corpus_def np_zeros_def ranking_Nil getitem_def)

text \<open>
  Claim C4, amended: for a corpus with zero sentences \<^verbatim>\<open>summarize\<close> returns no summary;
  it raises whatever \<^verbatim>\<open>tf_idf\<close> raises, and \<^verbatim>\<open>IndexError\<close> when \<^verbatim>\<open>tf_idf\<close> returns.
\<close>

theorem summarize_no_sentences:
  assumes "sen_size_total data = 0"
  shows "summarize py data = (case tf_idf data of Inl e \<Rightarrow> Inl e | Inr r \<Rightarrow> Inl IndexError)"
proof (cases "tf_idf data")
  case (Inl e)
  then show ?thesis by (simp add: summarize_def)
next
  case (Inr r)
  obtain M v where r: "r = (M, v)" by (cases r)
  from tf_idf_shape[OF Inr[unfolded r]] assms have "M = []" by simp
  with Inr r show ?thesis
    by (simp add: summarize_def ranking_Nil getitem_def)
qed

theorem summarize_no_sentences_witness:
  "sen_size_total empty_corpus = 0 \<and> summarize insertion_sort empty_corpus = Inl IndexError"
proof -
  have a: "sen_size_total empty_corpus = 0" by (simp add: empty_corpus_def)
  have b: "tf_idf empty_corpus = Inr ([], [])"
    by (simp add: tf_idf_def empty_corpus_def np_zeros_def)
  from summarize_no_sentences[OF a, of insertion_sort] a b show ?thesis by simp
qed

subsection \<open>C5: the zero entries of the matrix\<close>

text \<open>
  In the three-document corpus every word occurs in two documents, so the inverse
  document frequency is \<open>ln (3 / 3) = 0\<close> and the entry for cat in the first sentence is
  0 although cat occurs once in the first document.
\<close>

theorem matrix_entry_zero_counterexample:
  "tf_idf pets = Inr ([[0,0,0],[0,0,0],[0,0,0]], [ln (1/2) / 3, ln (1/2) / 3, ln (1/2) / 3]) \<and>
   [[0,0,0],[0,0,0],[0,0,0::real]] ! 0 ! 0 = 0 \<and>
   doc_of pets [0..<doc_size pets] 0 = Some 0 \<and>
   count_in_doc pets (word_list pets ! 0) 0 = 1"
  using pets_tf_idf by (simp add: pets_def upt3)

text \<open>
  Claim C5, amended: when \<^verbatim>\<open>tf_idf\<close> returns and the vocabulary has no duplicates, the
  entry for sentence \<open>s\<close> and term \<open>t\<close> is 0 whenever the term's count in the sentence's
  document is 0; and the entry is 0 exactly when that count is not positive or the
  number of documents equals the number of documents containing the term plus one.
\<close>

theorem matrix_entry_zero_iff:
  assumes ok: "tf_idf data = Inr (M, v)"
    and dist: "distinct (word_list data)"
    and t: "t < length (word_list data)"
    and s: "s < sen_size_total data"
    and d: "doc_of data [0..<doc_size data] s = Some d"
  shows "(count_in_doc data (word_list data ! t) d = 0 \<longrightarrow> M ! s ! t = 0) \<and>
     (M ! s ! t = 0 \<longleftrightarrow>
        count_in_doc data (word_list data ! t) d \<le> 0 \<or>
        int (doc_size data) = count_doc_containing_word data (word_list data ! t) + 1)"
proof (cases "0 < count_in_doc data (word_list data ! t) d")
  case False
  with tf_idf_entry[OF ok dist t s d] show ?thesis by simp
next
  case True
  let ?w = "word_list data ! t"
  from tf_idf_Inr[OF ok] obtain g where
    a: "doc_loop data [0..<doc_size data] 0
       (np_zeros (sen_size_total data) (length (word_list data))) = Inr (M, g)"
    by metis
  from doc_of_mem[OF d] have "d \<in> set [0..<doc_size data]" "0 < sen_size data d" by simp_all
  moreover have "?w \<in> set (word_list data)" using t by simp
  ultimately have "tfidf_defined data d ?w"
    using doc_loop_defined[OF a] True by blast
  then have ws: "word_size data d \<noteq> 0"
    and c1: "count_doc_containing_word data ?w + 1 \<noteq> 0"
    and q: "0 < real (doc_size data) / real_of_int (count_doc_containing_word data ?w + 1)"
    by (simp_all add: tfidf_defined_def)
  have "M ! s ! t = tfidf_value data d ?w"
    using tf_idf_entry[OF ok dist t s d] True by simp
  also have "\<dots> = 0 \<longleftrightarrow>
      ln (real (doc_size data) / real_of_int (count_doc_containing_word data ?w + 1)) = 0"
    using True ws by (simp add: tfidf_value_def)
  also have "\<dots> \<longleftrightarrow> real (doc_size data) / real_of_int (count_doc_containing_word data ?w + 1) = 1"
    using q by simp
  also have "\<dots> \<longleftrightarrow> real (doc_size data) = real_of_int (count_doc_containing_word data ?w + 1)"
    using c1 by auto
  also have "\<dots> \<longleftrightarrow> int (doc_size data) = count_doc_containing_word data ?w + 1"
    by (metis of_int_eq_iff of_int_of_nat_eq)
  finally show ?thesis using True by simp
qed

theorem matrix_entry_zero_iff_witness:
  "tf_idf news = Inr ([[0, ln (2/3) / 2], [0, ln (2/3)]], [ln (1/2) / 4, 3 * ln (1/2) / 4]) \<and>
   distinct (word_list news) \<and> (1::nat) < length (word_list news) \<and>
   (0::nat) < sen_size_total news \<and> doc_of news [0..<doc_size news] 0 = Some 0 \<and>
   [[0, ln (2/3) / 2], [0, ln (2/3 :: real)]] ! 0 ! 1 \<noteq> 0 \<and>
   0 < count_in_doc news (word_list news ! 1) 0 \<and>
   int (doc_size news) \<noteq> count_doc_containing_word news (word_list news ! 1) + 1"
proof -
  have b: "distinct (word_list news)" by (simp add: news_def)
  have c: "(1::nat) < length (word_list news)" by (simp add: news_def)
  have d: "(0::nat) < sen_size_total news" by (simp add: news_def)
  have e: "doc_of news [0..<doc_size news] 0 = Some 0" by (simp add: news_def upt2)
  have f: "0 < count_in_doc news (word_list news ! 1) 0" by (simp add: news_def)
  from matrix_entry_zero_iff[OF news_tf_idf b c d e] f news_tf_idf b c d e
  show ?thesis by simp
qed

subsection \<open>C6: the range of \<^verbatim>\<open>cos_similarity\<close>\<close>

text \<open>
  Claim C6: for two vectors of the same length with nonzero norms, whatever the signs of
  their entries, \<^verbatim>\<open>cos_similarity\<close> returns a number between 0 and 1.
\<close>

theorem cos_similarity_range:
  assumes "length u = length v" and "linalg_norm u \<noteq> 0" and "linalg_norm v \<noteq> 0"
  shows "\<exists>r. cos_similarity u v = Inr (Fin r) \<and> 0 \<le> r \<and> r \<le> 1"
  using assms by (rule cos_similarity_finite)

theorem cos_similarity_range_witness:
  "length [0, ln (2/3) / 2 :: real] = length [ln (1/2) / 4, 3 * ln (1/2) / 4 :: real] \<and>
   linalg_norm [0, ln (2/3) / 2] \<noteq> 0 \<and> linalg_norm [ln (1/2) / 4, 3 * ln (1/2) / 4] \<noteq> 0 \<and>
   (\<exists>r. cos_similarity [0, ln (2/3) / 2] [ln (1/2) / 4, 3 * ln (1/2) / 4] = Inr (Fin r) \<and>
        0 \<le> r \<and> r \<le> 1)"
proof -
  have a: "length [0, ln (2/3) / 2 :: real] = length [ln (1/2) / 4, 3 * ln (1/2) / 4 :: real]"
    by simp
  have b: "linalg_norm [0, ln (2/3) / 2] \<noteq> 0"
    by (simp add: linalg_norm_def)
  have "0 < ln (1/2) / 4 * (ln (1/2) / 4) + (3 * ln (1/2) / 4 * (3 * ln (1/2) / 4) :: real)"
    by (rule add_pos_pos) (simp_all add: zero_less_mult_iff)
  then have c: "linalg_norm [ln (1/2) / 4, 3 * ln (1/2) / 4] \<noteq> 0"
    by (simp add: linalg_norm_def)
  from cos_similarity_range[OF a b c] a b c show ?thesis by blast
qed

subsection \<open>C7: a document with a word count of zero\<close>

text \<open>
  The term frequency of a counted word in a document whose word count is zero: the
  division raises \<^verbatim>\<open>ZeroDivisionError\<close>, and that is what \<^verbatim>\<open>tf_idf\<close> raises.
\<close>

theorem empty_document_counterexample:
  "word_size blank_doc 0 = 0 \<and> 0 < count_in_doc blank_doc ''cat'' 0 \<and>
   tf_idf blank_doc = Inl ZeroDivisionError"
  by (simp add: tf_idf_def blank_doc_def np_zeros_def truediv_def Let_def)

text \<open>
  Claim C7, amended: when a document with at least one sentence has the word count 0 and
  a word of the vocabulary has a positive count in it, while no count of documents
  containing a word is negative and the matrix has a row for every sentence, then
  \<^verbatim>\<open>tf_idf\<close> raises \<^verbatim>\<open>ZeroDivisionError\<close>, and so does \<^verbatim>\<open>summarize\<close>.
\<close>

theorem empty_document_raises:
  assumes "d < doc_size data" and "0 < sen_size data d"
    and "w \<in> set (word_list data)" and "0 < count_in_doc data w d"
    and "word_size data d = 0"
    and "\<forall>w\<in>set (word_list data). 0 \<le> count_doc_containing_word data w"
    and "sum_list (map (sen_size data) [0..<doc_size data]) \<le> sen_size_total data"
  shows "tf_idf data = Inl ZeroDivisionError \<and> summarize py data = Inl ZeroDivisionError"
  using assms by (rule tf_idf_empty_document)

theorem empty_document_raises_witness:
  "(0::nat) < doc_size blank_doc \<and> 0 < sen_size blank_doc 0 \<and>
   ''cat'' \<in> set (word_list blank_doc) \<and> 0 < count_in_doc blank_doc ''cat'' 0 \<and>
   word_size blank_doc 0 = 0 \<and>
   tf_idf blank_doc = Inl ZeroDivisionError \<and>
   summarize insertion_sort blank_doc = Inl ZeroDivisionError"
proof -
  have a: "(0::nat) < doc_size blank_doc" "0 < sen_size blank_doc 0"
    "''cat'' \<in> set (word_list blank_doc)" "0 < count_in_doc blank_doc ''cat'' 0"
    "word_size blank_doc 0 = 0"
    "\<forall>w\<in>set (word_list blank_doc). 0 \<le> count_doc_containing_word blank_doc w"
    "sum_list (map (sen_size blank_doc) [0..<doc_size blank_doc]) \<le> sen_size_total blank_doc"
    by (simp_all add: blank_doc_def)
  from empty_document_raises[OF a, of insertion_sort] a show ?thesis by blast
qed

subsection \<open>C8: the selection loop\<close>

text \<open>
  Claim C8: a round of the selection loop that continues starts below the budget of 665
  characters and does not decrease the summary length; from a state at or over the
  budget the loop returns that state unchanged; a state returned by the loop has at least
  the summary length of the starting state, extends its summary, and is at or over the
  budget or has exhausted the ranking; the loop returns from every state whose ranks are
  within the ranking, when the ranking's indices are rows of the matrix and the rows
  have one length; and \<^verbatim>\<open>summarize\<close> returns a nonempty summary whenever \<^verbatim>\<open>tf_idf\<close>
  returns and there is a sentence.
\<close>

theorem selection_loop_budget:
  "(\<forall>st'. select_step data M sl st = Inr (Some st') \<longrightarrow>
       sum_size st < 665 \<and> sum_size st \<le> sum_size st') \<and>
   (665 \<le> sum_size st \<longrightarrow>
       select_step data M sl st = Inr None \<and> select_loop data M sl st = Inr st) \<and>
   (\<forall>st'. select_loop data M sl st = Inr st' \<longrightarrow>
       sum_size st \<le> sum_size st' \<and> (\<exists>ys. summary st' = summary st @ ys) \<and>
       (665 \<le> sum_size st' \<or> current_rank st' = length sl)) \<and>
   (current_rank st \<le> length sl \<and> base_rank st < length sl \<and>
    (\<forall>x\<in>set sl. snd x < length M) \<and> (\<forall>row\<in>set M. length row = n) \<longrightarrow>
       (\<exists>st'. select_loop data M sl st = Inr st')) \<and>
   (tf_idf data = Inr (M0, v0) \<and> 0 < sen_size_total data \<longrightarrow>
       (\<exists>s. summarize py data = Inr s \<and> s \<noteq> []))"
proof (intro conjI allI impI)
  fix st' assume a: "select_step data M sl st = Inr (Some st')"
  from select_step_Some[OF a] show "sum_size st < 665" by simp
  from select_step_Some[OF a] show "sum_size st \<le> sum_size st'" by auto
next
  assume b: "665 \<le> sum_size st"
  then show "select_step data M sl st = Inr None" by (rule select_step_budget)
  then show "select_loop data M sl st = Inr st"
    by (simp add: select_loop.simps[of data M sl st])
next
  fix st' assume c: "select_loop data M sl st = Inr st'"
  from select_loop_result[OF c]
  show "sum_size st \<le> sum_size st'" "\<exists>ys. summary st' = summary st @ ys"
    "665 \<le> sum_size st' \<or> current_rank st' = length sl"
    by simp_all
next
  assume "current_rank st \<le> length sl \<and> base_rank st < length sl \<and>
    (\<forall>x\<in>set sl. snd x < length M) \<and> (\<forall>row\<in>set M. length row = n)"
  then show "\<exists>st'. select_loop data M sl st = Inr st'"
    using select_loop_total[of st sl M n data] by blast
next
  assume "tf_idf data = Inr (M0, v0) \<and> 0 < sen_size_total data"
  then show "\<exists>s. summarize py data = Inr s \<and> s \<noteq> []"
    using summarize_total[of data M0 v0 py] by blast
qed

theorem selection_loop_budget_witness:
  "select_step pets pets_matrix pets_sim_lst pets_st0 = Inr (Some (pets_st0\<lparr>current_rank := 2\<rparr>)) \<and>
   sum_size pets_st0 < 665 \<and>
   665 \<le> sum_size full_st \<and> select_loop pets pets_matrix pets_sim_lst full_st = Inr full_st \<and>
   (\<exists>st'. select_loop pets pets_matrix pets_sim_lst pets_st0 = Inr st' \<and>
      sum_size pets_st0 \<le> sum_size st' \<and>
      (665 \<le> sum_size st' \<or> current_rank st' = length pets_sim_lst)) \<and>
   tf_idf pets = Inr (pets_matrix, [ln (1/2) / 3, ln (1/2) / 3, ln (1/2) / 3]) \<and>
   0 < sen_size_total pets \<and> (\<exists>s. summarize insertion_sort pets = Inr s \<and> s \<noteq> [])"
proof -
  note t = selection_loop_budget[of pets pets_matrix pets_sim_lst pets_st0 3 pets_matrix
      "[ln (1/2) / 3, ln (1/2) / 3, ln (1/2) / 3]" insertion_sort]
  note u = selection_loop_budget[of pets pets_matrix pets_sim_lst full_st 3 pets_matrix
      "[ln (1/2) / 3, ln (1/2) / 3, ln (1/2) / 3]" insertion_sort]
  have wf: "current_rank pets_st0 \<le> length pets_sim_lst \<and> base_rank pets_st0 < length pets_sim_lst \<and>
    (\<forall>x\<in>set pets_sim_lst. snd x < length pets_matrix) \<and> (\<forall>row\<in>set pets_matrix. length row = 3)"
    by (simp add: pets_st0_def pets_sim_lst_def pets_matrix_def)
  have big: "665 \<le> sum_size full_st" by (simp add: full_st_def)
  have tf: "tf_idf pets = Inr (pets_matrix, [ln (1/2) / 3, ln (1/2) / 3, ln (1/2) / 3])"
    using pets_tf_idf by (simp add: pets_matrix_def)
  have n: "0 < sen_size_total pets" by (simp add: pets_def)
  from t pets_step have 1: "sum_size pets_st0 < 665" by blast
  from u big have 2: "select_loop pets pets_matrix pets_sim_lst full_st = Inr full_st" by blast
  from t wf obtain st' where 3: "select_loop pets pets_matrix pets_sim_lst pets_st0 = Inr st'"
    by blast
  with t have 4: "sum_size pets_st0 \<le> sum_size st' \<and>
      (665 \<le> sum_size st' \<or> current_rank st' = length pets_sim_lst)" by blast
  from t tf n have 5: "\<exists>s. summarize insertion_sort pets = Inr s \<and> s \<noteq> []" by blast
  from pets_step 1 big 2 3 4 tf n 5 show ?thesis by blast
qed

subsection \<open>C9: the long sentence vector\<close>

text \<open>
  Claim C9: when \<^verbatim>\<open>tf_idf\<close> returns, the long sentence vector has one entry for every
  word of the vocabulary, and the entry is the word's total count divided by the total
  word count (which is not zero), multiplied by \<open>ln (1 / 2)\<close>.
\<close>

theorem centroid_entry:
  assumes "tf_idf data = Inr (M, v)" and "t < length (word_list data)"
  shows "length v = length (word_list data) \<and> word_size_total data \<noteq> 0 \<and>
     v ! t = (real_of_int (count_total_in_doc data (word_list data ! t)) /
              real_of_int (word_size_total data)) * ln (1 / 2)"
proof -
  from tf_idf_Inr[OF assms(1)] have
    a: "long_sen_loop data (word_size_total data) (word_list data) [] = Inr v"
    by metis
  from long_sen_loop_spec[OF a] assms(2) have
    "length v = length (word_list data)"
    "v ! t = (real_of_int (count_total_in_doc data (word_list data ! t)) /
              real_of_int (word_size_total data)) * ln (1 / 2)"
    by simp_all
  moreover have "word_size_total data \<noteq> 0"
    using a assms(2) by (cases "word_list data") (auto simp: truediv_def split: if_splits)
  ultimately show ?thesis by simp
qed

theorem centroid_entry_witness:
  "tf_idf news = Inr ([[0, ln (2/3) / 2], [0, ln (2/3)]], [ln (1/2) / 4, 3 * ln (1/2) / 4]) \<and>
   (1::nat) < length (word_list news) \<and>
   [ln (1/2) / 4, 3 * ln (1/2) / 4] ! 1 =
     (real_of_int (count_total_in_doc news (word_list news ! 1)) /
              real_of_int (word_size_total news)) * ln (1 / 2)"
proof -
  have b: "(1::nat) < length (word_list news)" by (simp add: news_def)
  from centroid_entry[OF news_tf_idf b] news_tf_idf b show ?thesis by blast
qed

subsection \<open>C10: the function \<^verbatim>\<open>tf\<close>\<close>

text \<open>
  Claim C10: for every list of sentences \<^verbatim>\<open>tf\<close> returns two empty dicts, without
  raising.
\<close>

theorem tf_returns_empty_dicts: "tf sentences = Inr ([], [])"
  by (simp add: tf_def dict_keys_def)

end
